theory Spec2Isabelle
  imports Main "HOL-Library.Word" "HOL-Library.AList" "HOL-Library.Log_Nat"
begin

unbundle bit_operations_syntax

section \<open>Short-range sync: data model\<close>

text \<open>
  A \<open>StreamID\<close> is a Go string and a \<open>common.Hash\<close> is a 32-byte array, read here as
  a 256-bit word. A Go map is an association list with pairwise distinct keys; ranging
  over the map visits the entries in the order of the list, so a statement for every
  such list covers every iteration order the runtime may choose. A map used as a set
  (\<open>map[StreamID]struct{}\<close>) is a list of its keys.
\<close>

type_synonym StreamID = string
type_synonym Hash = "256 word"
type_synonym voteTable = "(StreamID \<times> Hash) list"

text \<open>
  Modelled from the spec: the declaration of \<open>emptyHash\<close> is not among the sources.
  It is the distinguished hash that denotes "no block", the zero value of
  \<open>common.Hash\<close>, which is also what \<open>var res common.Hash\<close> starts from.
\<close>

definition emptyHash :: Hash where
  "emptyHash = 0"

subsection \<open>countHashMaxVote\<close>

text \<open>
  The guard shared by both loops of \<open>countHashMaxVote\<close>: with a non-empty whitelist
  an entry of a stream outside it is skipped.
\<close>

definition counted :: "StreamID list \<Rightarrow> StreamID \<Rightarrow> bool" where
  "counted whitelist st = (whitelist = [] \<or> st \<in> set whitelist)"

text \<open>
  The first loop. \<open>voteM\<close> is the map from hash to count, \<open>res\<close> and \<open>maxCnt\<close>
  the running winner and its count.
\<close>

fun voteLoop ::
  "voteTable \<Rightarrow> StreamID list \<Rightarrow> (Hash \<rightharpoonup> int) \<Rightarrow> Hash \<Rightarrow> int \<Rightarrow> Hash \<times> int" where
  "voteLoop [] whitelist voteM res maxCnt = (res, maxCnt)"
| "voteLoop ((st, h) # m) whitelist voteM res maxCnt =
     (if whitelist \<noteq> [] \<and> st \<notin> set whitelist then voteLoop m whitelist voteM res maxCnt
      else
        let voteM0 = (if voteM h = None then voteM(h \<mapsto> 0) else voteM);
            c = (case voteM0 h of None \<Rightarrow> 0 | Some k \<Rightarrow> k) + 1;
            voteM1 = voteM0(h \<mapsto> c)
        in if c > maxCnt then voteLoop m whitelist voteM1 h c
           else voteLoop m whitelist voteM1 res maxCnt)"

text \<open>
  The second loop collects the streams whose entry is the winner. It ranges over the
  map once more, in an order of its own; the set it builds does not depend on that
  order (\<open>nextWlLoop_order\<close> below), so one list serves both loops.
\<close>

fun nextWlLoop :: "voteTable \<Rightarrow> StreamID list \<Rightarrow> Hash \<Rightarrow> StreamID list \<Rightarrow> StreamID list" where
  "nextWlLoop [] whitelist res nextWl = nextWl"
| "nextWlLoop ((st, h) # m) whitelist res nextWl =
     (if h \<noteq> res then nextWlLoop m whitelist res nextWl
      else if whitelist \<noteq> [] then
        (if st \<in> set whitelist then nextWlLoop m whitelist res (nextWl @ [st])
         else nextWlLoop m whitelist res nextWl)
      else nextWlLoop m whitelist res (nextWl @ [st]))"

definition countHashMaxVote :: "voteTable \<Rightarrow> StreamID list \<Rightarrow> Hash \<times> StreamID list" where
  "countHashMaxVote m whitelist =
     (let res = fst (voteLoop m whitelist Map.empty 0 0)
      in (res, nextWlLoop m whitelist res []))"

text \<open>The number of counted votes for a hash in a table.\<close>

definition votesFor :: "voteTable \<Rightarrow> StreamID list \<Rightarrow> Hash \<Rightarrow> nat" where
  "votesFor m whitelist h = card {st. map_of m st = Some h \<and> counted whitelist st}"

subsection \<open>computeLongestHashChain\<close>

fun hashChainLoop ::
  "voteTable list \<Rightarrow> StreamID list \<Rightarrow> Hash list \<Rightarrow> Hash list \<times> StreamID list" where
  "hashChainLoop [] whitelist hashChain = (hashChain, whitelist)"
| "hashChainLoop (result # results) whitelist hashChain =
     (case countHashMaxVote result whitelist of
        (hash, nextWl) \<Rightarrow>
          if hash = emptyHash then (hashChain, whitelist)
          else hashChainLoop results nextWl (hashChain @ [hash]))"

definition computeLongestHashChain :: "voteTable list \<Rightarrow> Hash list \<times> StreamID list" where
  "computeLongestHashChain results = hashChainLoop results [] []"

text \<open>
  Auxiliary readings used by the proofs: the number of counted entries of a table that
  carry a hash, and the count a vote map holds for a hash (a missing key reads as 0).
\<close>

definition cntL :: "voteTable \<Rightarrow> StreamID list \<Rightarrow> Hash \<Rightarrow> int" where
  "cntL m whitelist h = int (length (filter (\<lambda>(st, h'). h' = h \<and> counted whitelist st) m))"

definition readVote :: "(Hash \<rightharpoonup> int) \<Rightarrow> Hash \<Rightarrow> int" where
  "readVote voteM h = (case voteM h of None \<Rightarrow> 0 | Some k \<Rightarrow> k)"


subsection \<open>The run of the chain loop, position by position\<close>

text \<open>
  The specification describes the aggregation by positions: the tally of position \<open>i\<close>
  is taken under the running whitelist reached there (initially empty), and the chain
  stops at the first position whose tally is \<open>emptyHash\<close>. These definitions follow
  that wording; the theorems below compare them with \<open>computeLongestHashChain\<close>.
\<close>

fun whitelistAt :: "voteTable list \<Rightarrow> nat \<Rightarrow> StreamID list" where
  "whitelistAt results 0 = []"
| "whitelistAt results (Suc i) = snd (countHashMaxVote (results ! i) (whitelistAt results i))"

definition winnerAt :: "voteTable list \<Rightarrow> nat \<Rightarrow> Hash" where
  "winnerAt results i = fst (countHashMaxVote (results ! i) (whitelistAt results i))"

definition firstEmpty :: "voteTable list \<Rightarrow> nat" where
  "firstEmpty results =
     length (takeWhile (\<lambda>i. winnerAt results i \<noteq> emptyHash) [0..<length results])"

section \<open>Stream framing (p2p/stream/types/stream.go)\<close>

text \<open>
  A byte is an 8-bit word; \<open>int\<close> is Go's 64-bit integer, read as a mathematical
  integer (every length here is far below \<open>2 ^ 63\<close>).
\<close>

type_synonym byte = "8 word"

definition maxMsgBytes :: int where "maxMsgBytes = 20 * 1024 * 1024"
definition sizeBytes :: nat where "sizeBytes = 4"

text \<open>
  \<open>binary.LittleEndian.PutUint32\<close> and \<open>binary.LittleEndian.Uint32\<close>: the least
  significant byte first. \<open>intToBytes\<close> converts its argument with \<open>uint32(val)\<close>,
  which keeps the low 32 bits; \<open>bytesToInt\<close> is only applied to the 4-byte buffer
  \<open>sb\<close>.
\<close>

definition PutUint32 :: "32 word \<Rightarrow> byte list" where
  "PutUint32 v = [ucast v, ucast (drop_bit 8 v), ucast (drop_bit 16 v), ucast (drop_bit 24 v)]"

definition Uint32 :: "byte list \<Rightarrow> 32 word" where
  "Uint32 b = ucast (b ! 0) OR push_bit 8 (ucast (b ! 1)) OR push_bit 16 (ucast (b ! 2))
                OR push_bit 24 (ucast (b ! 3))"

definition intToBytes :: "int \<Rightarrow> byte list" where
  "intToBytes val = PutUint32 (word_of_int val)"

definition bytesToInt :: "byte list \<Rightarrow> int" where
  "bytesToInt b = uint (Uint32 b)"

subsection \<open>The buffered stream\<close>

text \<open>
  \<open>st.rw\<close> is a \<open>bufio.ReadWriter\<close> over the raw libp2p stream. The state keeps
  what the code can observe of it.

  Reading: \<open>incoming\<close> lists the byte runs that successive reads can deliver: the
  head is what is buffered or what the next read of the raw stream returns; an empty
  list is end of stream. \<open>bufio.Reader.Read(p)\<close> takes its bytes from at most one
  read of the raw stream, so it returns the first \<open>len p\<close> bytes of the head run,
  or the whole run when that is shorter, and no error: the count it returns may be less
  than \<open>len p\<close>. \<open>io.ReadFull\<close> calls \<open>Read\<close> until the buffer is full; at the
  end of the stream it fails with \<open>EOF\<close> when nothing was read and with
  \<open>ErrUnexpectedEOF\<close> otherwise.

  Writing: \<open>Write\<close> appends to the writer's buffer \<open>outbuf\<close> and \<open>Flush\<close> moves
  the buffer to the raw stream, \<open>outgoing\<close>. \<open>writeBudget\<close> is the number of
  further writer operations the raw stream serves before it fails (\<open>None\<close>: it does
  not fail).

  The metric counters that both functions update are left out.
\<close>

datatype ioError = EOF | ErrUnexpectedEOF | ErrWrite

datatype streamError =
    MessageTooLong
  | WriteError ioError
  | ReadSizeError ioError
  | MessageSizeExceedMax
  | ReadContentError ioError
  | SanityByteSize

record BaseStream =
  incoming :: "byte list list"
  outbuf :: "byte list"
  outgoing :: "byte list"
  writeBudget :: "nat option"

definition rw_Write :: "byte list \<Rightarrow> BaseStream \<Rightarrow> ioError option \<times> BaseStream" where
  "rw_Write p st =
     (case writeBudget st of
        None \<Rightarrow> (None, st\<lparr>outbuf := outbuf st @ p\<rparr>)
      | Some 0 \<Rightarrow> (Some ErrWrite, st)
      | Some (Suc k) \<Rightarrow> (None, st\<lparr>outbuf := outbuf st @ p, writeBudget := Some k\<rparr>))"

definition rw_Flush :: "BaseStream \<Rightarrow> ioError option \<times> BaseStream" where
  "rw_Flush st =
     (case writeBudget st of
        None \<Rightarrow> (None, st\<lparr>outgoing := outgoing st @ outbuf st, outbuf := []\<rparr>)
      | Some 0 \<Rightarrow> (Some ErrWrite, st)
      | Some (Suc k) \<Rightarrow>
          (None, st\<lparr>outgoing := outgoing st @ outbuf st, outbuf := [], writeBudget := Some k\<rparr>))"

definition rw_Read :: "nat \<Rightarrow> BaseStream \<Rightarrow> (byte list \<times> ioError option) \<times> BaseStream" where
  "rw_Read k st =
     (case incoming st of
        [] \<Rightarrow> (([], Some EOF), st)
      | c # cs \<Rightarrow>
          if length c \<le> k then ((c, None), st\<lparr>incoming := cs\<rparr>)
          else ((take k c, None), st\<lparr>incoming := drop k c # cs\<rparr>))"

fun ReadFull :: "byte list list \<Rightarrow> nat \<Rightarrow> byte list \<Rightarrow> byte list \<times> ioError option \<times> byte list list" where
  "ReadFull [] n acc =
     (if n = 0 then (acc, None, [])
      else (acc, Some (if acc = [] then EOF else ErrUnexpectedEOF), []))"
| "ReadFull (c # cs) n acc =
     (if n = 0 then (acc, None, c # cs)
      else if length c \<le> n then ReadFull cs (n - length c) (acc @ c)
      else (acc @ take n c, None, drop n c # cs))"

text \<open>
  \<open>WriteBytes\<close> returns its error; \<open>ReadBytes\<close> returns the content or its error.
  In \<open>ReadBytes\<close> the count returned by \<open>st.rw.Read(sb)\<close> is discarded: \<open>sb\<close>
  is the zeroed 4-byte buffer with the delivered bytes copied to its front.
\<close>

definition WriteBytes :: "byte list \<Rightarrow> BaseStream \<Rightarrow> streamError option \<times> BaseStream" where
  "WriteBytes b st =
     (if int (length b) > maxMsgBytes then (Some MessageTooLong, st)
      else case rw_Write (intToBytes (int (length b))) st of
        (Some e, st1) \<Rightarrow> (Some (WriteError e), st1)
      | (None, st1) \<Rightarrow>
          (case rw_Write b st1 of
             (Some e, st2) \<Rightarrow> (Some (WriteError e), st2)
           | (None, st2) \<Rightarrow>
               (case rw_Flush st2 of
                  (Some e, st3) \<Rightarrow> (Some (WriteError e), st3)
                | (None, st3) \<Rightarrow> (None, st3))))"

definition ReadBytes :: "BaseStream \<Rightarrow> (streamError + byte list) \<times> BaseStream" where
  "ReadBytes st =
     (case rw_Read sizeBytes st of
        ((got, Some e), st1) \<Rightarrow> (Inl (ReadSizeError e), st1)
      | ((got, None), st1) \<Rightarrow>
          let sb = got @ replicate (sizeBytes - length got) 0;
              size = bytesToInt sb
          in if size > maxMsgBytes then (Inl MessageSizeExceedMax, st1)
             else
               (case ReadFull (incoming st1) (nat size) [] of
                  (cb, Some e, rest) \<Rightarrow> (Inl (ReadContentError e), st1\<lparr>incoming := rest\<rparr>)
                | (cb, None, rest) \<Rightarrow>
                    if int (length cb) \<noteq> size then (Inl SanityByteSize, st1\<lparr>incoming := rest\<rparr>)
                    else (Inr cb, st1\<lparr>incoming := rest\<rparr>)))"

section \<open>Floating point, as \<open>divideCeil\<close> uses it\<close>

text \<open>
  \<open>divideCeil\<close> converts two \<open>int\<close>s to \<open>float64\<close>, divides, applies
  \<open>math.Ceil\<close> and converts back. A \<open>float64\<close> is a rational that the format
  represents, an infinity or NaN. \<open>round64\<close> rounds a rational to 53 significant bits,
  ties to even, which is what the conversion from \<open>int\<close> and the division do. The
  operands of the one division are conversions of slice lengths, so the quotient of two
  non-zero operands lies between \<open>2 powi (- 63)\<close> and \<open>2 ^ 63\<close>: the exponent range
  and the subnormal numbers of the format play no part, and there is no negative zero.

  Converting a \<open>float64\<close> that \<open>int\<close> cannot represent (an infinity, NaN, a value
  outside the 64-bit range) succeeds in Go with an implementation-dependent result;
  \<open>arch\<close> is that result, a parameter of every function that reaches the conversion.
\<close>

datatype float64 = Finite rat | PosInf | NegInf | NaN

definition roundHalfEven :: "rat \<Rightarrow> int" where
  "roundHalfEven x =
     (let f = \<lfloor>x\<rfloor>; d = x - of_int f
      in if d < 1 / 2 then f else if 1 / 2 < d then f + 1 else if even f then f else f + 1)"

text \<open>
  The binary exponent of a positive rational \<open>r\<close>: the \<open>e\<close> with
  \<open>2 powi e \<le> r < 2 powi (e + 1)\<close>, computed from the bit lengths of numerator and
  denominator.
\<close>

definition exponentOf :: "rat \<Rightarrow> int" where
  "exponentOf r =
     (case quotient_of r of
        (p, q) \<Rightarrow>
          let k = bitlen p - bitlen q
          in if 2 powi k \<le> r then k else k - 1)"

definition round64 :: "rat \<Rightarrow> rat" where
  "round64 r =
     (if r = 0 then 0
      else let e = exponentOf \<bar>r\<bar> - 52
           in sgn r * of_int (roundHalfEven (\<bar>r\<bar> / 2 powi e)) * 2 powi e)"

definition float64_of_int :: "int \<Rightarrow> float64" where
  "float64_of_int x = Finite (round64 (of_int x))"

definition float64_div :: "float64 \<Rightarrow> float64 \<Rightarrow> float64" where
  "float64_div a b =
     (case (a, b) of
        (Finite x, Finite y) \<Rightarrow>
          if y \<noteq> 0 then Finite (round64 (x / y))
          else if x = 0 then NaN else if 0 < x then PosInf else NegInf
      | (Finite x, PosInf) \<Rightarrow> Finite 0
      | (Finite x, NegInf) \<Rightarrow> Finite 0
      | (PosInf, Finite y) \<Rightarrow> if 0 \<le> y then PosInf else NegInf
      | (NegInf, Finite y) \<Rightarrow> if 0 \<le> y then NegInf else PosInf
      | _ \<Rightarrow> NaN)"

definition math_Ceil :: "float64 \<Rightarrow> float64" where
  "math_Ceil f = (case f of Finite r \<Rightarrow> Finite (of_int \<lceil>r\<rceil>) | _ \<Rightarrow> f)"

definition int_of_float64 :: "(float64 \<Rightarrow> int) \<Rightarrow> float64 \<Rightarrow> int" where
  "int_of_float64 arch f =
     (case f of
        Finite r \<Rightarrow>
          let t = (if 0 \<le> r then \<lfloor>r\<rfloor> else \<lceil>r\<rceil>)
          in if - (2 ^ 63) \<le> t \<and> t < 2 ^ 63 then t else arch f
      | _ \<Rightarrow> arch f)"

definition divideCeil :: "(float64 \<Rightarrow> int) \<Rightarrow> int \<Rightarrow> int \<Rightarrow> int" where
  "divideCeil arch x y =
     (let fVal = float64_div (float64_of_int x) (float64_of_int y)
      in int_of_float64 arch (math_Ceil fVal))"

section \<open>The block-fetch manager\<close>

text \<open>
  Modelled from the spec: \<open>types.Block\<close> is not among the sources. A block body is
  indexed by its hash, which \<open>block.Hash()\<close> returns; \<open>*types.Block\<close> is a pointer
  that may be nil, a \<open>Block option\<close>.
\<close>

record Block =
  blockHash :: Hash
  blockBody :: nat

record blockResult =
  block :: "Block option"
  stid :: StreamID

definition zeroBlockResult :: blockResult where
  "zeroBlockResult = \<lparr>block = None, stid = ''''\<rparr>"

text \<open>
  A Go slice is a window on a backing array. Here every slice starts at index 0 of its
  array, so it is the array and a length; its capacity is the length of the array.
  \<open>newGetBlocksByHashManager\<close> stores the slice it is given: the manager's whitelist
  and the caller's share one backing array.
\<close>

record 'a slice =
  backing :: "'a list"
  slen :: nat

definition elems :: "'a slice \<Rightarrow> 'a list" where
  "elems s = take (slen s) (backing s)"

definition sliceOf :: "'a list \<Rightarrow> 'a slice" where
  "sliceOf xs = \<lparr>backing = xs, slen = length xs\<rparr>"

text \<open>
  The errors of the downloader. \<open>Wrap e msg\<close> is \<open>errors.Wrap(e, msg)\<close>;
  \<open>IndexOutOfRange\<close> stands for the runtime panic of an index out of range.
\<close>

datatype downloadError =
    NotEnoughStreams
  | ContextCanceled
  | RequestFailed
  | UnexpectedHashesResult
  | UnexpectedNumberOfBlocks
  | NilBlockFound
  | UnexpectedBlockHash
  | EmptyWhiteList
  | SanityNilBlock
  | IndexOutOfRange
  | SigVerifyError
  | InsertFailed
  | Wrap downloadError string

record getBlocksByHashManager =
  hashes :: "Hash list"
  pendings :: "Hash list"
  results :: "(Hash \<times> blockResult) list"
  whitelist :: "StreamID slice"

definition newGetBlocksByHashManager :: "Hash list \<Rightarrow> StreamID slice \<Rightarrow> getBlocksByHashManager" where
  "newGetBlocksByHashManager hs wl = \<lparr>hashes = hs, pendings = [], results = [], whitelist = wl\<rparr>"

text \<open>
  Modelled from the spec: the constants \<open>numBlocksByHashesLowerCap\<close> and
  \<open>numBlocksByHashesUpperCap\<close> are declared outside the sources; the specification
  gives the defaults 6 and 10.
\<close>

definition numBlocksByHashesLowerCap :: int where
  "numBlocksByHashesLowerCap = 6"

definition numBlocksByHashesUpperCap :: int where
  "numBlocksByHashesUpperCap = 10"

definition numBlocksPerRequest :: "(float64 \<Rightarrow> int) \<Rightarrow> getBlocksByHashManager \<Rightarrow> int" where
  "numBlocksPerRequest arch m =
     (let v0 = divideCeil arch (int (length (hashes m))) (int (length (elems (whitelist m))));
          v1 = (if v0 < numBlocksByHashesLowerCap then numBlocksByHashesLowerCap else v0);
          v2 = (if v1 > numBlocksByHashesUpperCap then numBlocksByHashesUpperCap else v1)
      in v2)"

text \<open>
  \<open>getNextHashes\<close> returns its results and the manager, which it leaves as it was:
  the loop reads \<open>pendings\<close> and \<open>results\<close> and writes neither.
\<close>

fun nextHashesLoop :: "Hash list \<Rightarrow> int \<Rightarrow> getBlocksByHashManager \<Rightarrow> Hash list \<Rightarrow> Hash list" where
  "nextHashesLoop [] num m acc = acc"
| "nextHashesLoop (hash # rest) num m acc =
     (if int (length acc) = num then acc
      else
        let ok1 = (hash \<in> set (pendings m));
            ok2 = (map_of (results m) hash \<noteq> None)
        in if \<not> ok1 \<and> \<not> ok2 then nextHashesLoop rest num m (acc @ [hash])
           else nextHashesLoop rest num m acc)"

definition getNextHashes ::
  "(float64 \<Rightarrow> int) \<Rightarrow> getBlocksByHashManager \<Rightarrow>
     (downloadError + Hash list \<times> StreamID list) \<times> getBlocksByHashManager" where
  "getNextHashes arch m =
     (let num = numBlocksPerRequest arch m
      in if length (elems (whitelist m)) = 0 then (Inl EmptyWhiteList, m)
         else
           let hs = nextHashesLoop (hashes m) num m [];
               sts = elems (whitelist m)
           in (Inr (hs, sts), m))"

text \<open>
  \<open>addResult\<close> reads \<open>blocks[i]\<close> for every index of \<open>hashes\<close>; a shorter
  \<open>blocks\<close> is an index out of range. A missing key of \<open>m.results\<close> reads as the
  zero \<open>blockResult\<close>, whose block is nil.
\<close>

fun addResult ::
  "Hash list \<Rightarrow> Block option list \<Rightarrow> StreamID \<Rightarrow> getBlocksByHashManager \<Rightarrow>
     downloadError + getBlocksByHashManager" where
  "addResult [] blocks st m = Inr m"
| "addResult (hash # rest) [] st m = Inl IndexOutOfRange"
| "addResult (hash # rest) (b # blocks) st m =
     addResult rest blocks st
       (m\<lparr>pendings := removeAll hash (pendings m),
          results := AList.update hash \<lparr>block = b, stid = st\<rparr> (results m)\<rparr>)"

definition lookupResult :: "getBlocksByHashManager \<Rightarrow> Hash \<Rightarrow> blockResult" where
  "lookupResult m hash = (case map_of (results m) hash of None \<Rightarrow> zeroBlockResult | Some r \<Rightarrow> r)"

fun getResultsLoop :: "Hash list \<Rightarrow> getBlocksByHashManager \<Rightarrow> Block list \<Rightarrow> downloadError + Block list" where
  "getResultsLoop [] m blocks = Inr blocks"
| "getResultsLoop (hash # rest) m blocks =
     (case block (lookupResult m hash) of
        None \<Rightarrow> Inl SanityNilBlock
      | Some b \<Rightarrow> getResultsLoop rest m (blocks @ [b]))"

definition getResults :: "getBlocksByHashManager \<Rightarrow> downloadError + Block list" where
  "getResults m = getResultsLoop (hashes m) m []"

definition isDone :: "getBlocksByHashManager \<Rightarrow> bool" where
  "isDone m = (length (results m) = length (hashes m))"

text \<open>
  \<open>removeStreamID\<close>: the loop finds the first index of the whitelist that holds the
  target, removes it with \<open>append(m.whitelist[:i], m.whitelist[i+1:]...)\<close> and starts
  again. The capacity suffices, so \<open>append\<close> copies the tail one place down inside the
  shared backing array (\<open>deleteAt\<close>) and returns a slice one shorter.
\<close>

fun firstIndex :: "'a \<Rightarrow> 'a list \<Rightarrow> nat option" where
  "firstIndex target [] = None"
| "firstIndex target (x # xs) =
     (if x = target then Some 0 else map_option Suc (firstIndex target xs))"

definition deleteAt :: "nat \<Rightarrow> 'a slice \<Rightarrow> 'a slice" where
  "deleteAt i s =
     \<lparr>backing = take i (backing s) @ take (slen s - Suc i) (drop (Suc i) (backing s))
                 @ drop (slen s - 1) (backing s),
      slen = slen s - 1\<rparr>"

function removeStreamID :: "StreamID \<Rightarrow> StreamID slice \<Rightarrow> StreamID slice" where
  "removeStreamID target wl =
     (case firstIndex target (elems wl) of
        None \<Rightarrow> wl
      | Some i \<Rightarrow>
          if i = length (elems wl) then removeStreamID target (wl\<lparr>slen := i\<rparr>)
          else removeStreamID target (deleteAt i wl))"
  by pat_completeness auto
termination
proof -
  have firstIndex_less: "firstIndex t xs = Some i \<Longrightarrow> i < length xs"
    for t :: StreamID and xs i
    by (induction xs arbitrary: i) (auto split: if_splits)
  show ?thesis
  proof (relation "measure (\<lambda>(target, wl). length (elems wl))")
    show "wf (measure (\<lambda>(target, wl). length (elems wl)))" by simp
  next
    fix target :: StreamID and wl :: "StreamID slice" and i
    assume "firstIndex target (elems wl) = Some i" and "i = length (elems wl)"
    then show "((target, wl\<lparr>slen := i\<rparr>), target, wl) \<in> measure (\<lambda>(target, wl). length (elems wl))"
      using firstIndex_less by fastforce
  next
    fix target :: StreamID and wl :: "StreamID slice" and i
    assume f: "firstIndex target (elems wl) = Some i" and "i \<noteq> length (elems wl)"
    have "i < length (elems wl)" using firstIndex_less[OF f] .
    then show "((target, deleteAt i wl), target, wl) \<in> measure (\<lambda>(target, wl). length (elems wl))"
      by (auto simp add: elems_def deleteAt_def)
  qed
qed

definition handleResultError ::
  "Hash list \<Rightarrow> StreamID \<Rightarrow> getBlocksByHashManager \<Rightarrow> getBlocksByHashManager" where
  "handleResultError hs st m =
     (let m1 = m\<lparr>whitelist := removeStreamID st (whitelist m)\<rparr>
      in m1\<lparr>pendings := fold removeAll hs (pendings m1)\<rparr>)"

fun checkBlocksLoop :: "Block option list \<Rightarrow> Hash list \<Rightarrow> downloadError option" where
  "checkBlocksLoop [] hs = None"
| "checkBlocksLoop (b # blocks) hs =
     (case b of
        None \<Rightarrow> Some NilBlockFound
      | Some blk \<Rightarrow>
          (case hs of
             [] \<Rightarrow> Some IndexOutOfRange
           | h # rest \<Rightarrow> if blockHash blk \<noteq> h then Some UnexpectedBlockHash
                        else checkBlocksLoop blocks rest))"

definition checkGetBlockByHashesResult :: "Block option list \<Rightarrow> Hash list \<Rightarrow> downloadError option" where
  "checkGetBlockByHashesResult blocks hs =
     (if length blocks \<noteq> length hs then Some UnexpectedNumberOfBlocks
      else checkBlocksLoop blocks hs)"

text \<open>
  The batch size as the specification words it:
  \<open>clamp(ceil(len(target) / len(whitelist)), 6, 10)\<close>.
\<close>

definition batchSizeSpec :: "nat \<Rightarrow> nat \<Rightarrow> int" where
  "batchSizeSpec target wl = max 6 (min 10 \<lceil>(of_nat target :: rat) / of_nat wl\<rceil>)"

text \<open>A hash that is neither pending nor completed.\<close>

definition eligible :: "getBlocksByHashManager \<Rightarrow> Hash \<Rightarrow> bool" where
  "eligible m hash = (hash \<notin> set (pendings m) \<and> map_of (results m) hash = None)"

text \<open>
  The states a manager goes through in \<open>getBlocksByHashes\<close>: it is created by
  \<open>newGetBlocksByHashManager\<close>; a worker calls \<open>addResult\<close> with a response that
  passed \<open>checkGetBlockByHashesResult\<close> and \<open>handleResultError\<close> otherwise
  (\<open>getNextHashes\<close> changes nothing). Every operation runs under the manager's lock,
  so the states are those of the sequences of these operations.
\<close>

inductive managed :: "getBlocksByHashManager \<Rightarrow> bool" where
  managed_new: "managed (newGetBlocksByHashManager hs wl)"
| managed_add:
    "managed m \<Longrightarrow> checkGetBlockByHashesResult blocks hs = None \<Longrightarrow>
     addResult hs blocks st m = Inr m' \<Longrightarrow> managed m'"
| managed_error: "managed m \<Longrightarrow> managed (handleResultError hs st m)"

definition resultsAligned :: "getBlocksByHashManager \<Rightarrow> bool" where
  "resultsAligned m =
     (\<forall>h r. map_of (results m) h = Some r \<longrightarrow> (\<exists>b. block r = Some b \<and> blockHash b = h))"

section \<open>The short-range helper\<close>

text \<open>
  The sync protocol is outside the sources. What it returns to a request is an input of
  the model (a response: the payload, the stream that served it, and the error if any),
  and its only effect that matters here, \<open>RemoveStream\<close>, is recorded: every function
  that can evict takes and returns the list of the streams passed to \<open>RemoveStream\<close>
  so far, in call order.
\<close>

type_synonym hashesResponse = "Hash list \<times> StreamID \<times> downloadError option"
type_synonym blocksResponse = "Block option list \<times> StreamID \<times> downloadError option"

text \<open>
  Modelled from the spec: the constant \<open>numBlockHashesPerRequest\<close> is declared outside
  the sources; the specification gives 20. Block numbers are far from \<open>2 ^ 64\<close>, so
  they are natural numbers here.
\<close>

definition numBlockHashesPerRequest :: nat where
  "numBlockHashesPerRequest = 20"

definition prepareBlockHashNumbers :: "nat \<Rightarrow> nat list" where
  "prepareBlockHashNumbers curNumber = map (\<lambda>k. curNumber + k) [1..<Suc numBlockHashesPerRequest]"

definition newBlockHashResults :: "nat list \<Rightarrow> voteTable list" where
  "newBlockHashResults bns = replicate (length bns) []"

text \<open>
  \<open>blockHashResults.addResult\<close> (the receiver is \<open>res\<close>): the listing is recorded
  position by position up to its first \<open>emptyHash\<close>.
\<close>

fun addResult_res :: "Hash list \<Rightarrow> StreamID \<Rightarrow> voteTable list \<Rightarrow> downloadError + voteTable list" where
  "addResult_res [] st rs = Inr rs"
| "addResult_res (h # hs) st rs =
     (if h = emptyHash then Inr rs
      else case rs of
        [] \<Rightarrow> Inl IndexOutOfRange
      | r # rest \<Rightarrow>
          (case addResult_res hs st rest of
             Inl e \<Rightarrow> Inl e
           | Inr rest' \<Rightarrow> Inr (AList.update st h r # rest')))"

definition doGetBlockHashesRequest ::
  "nat list \<Rightarrow> hashesResponse \<Rightarrow> StreamID list \<Rightarrow>
     (downloadError + Hash list) \<times> StreamID \<times> StreamID list" where
  "doGetBlockHashesRequest bns resp removed =
     (case resp of
        (hs, st, Some e) \<Rightarrow> (Inl e, st, removed)
      | (hs, st, None) \<Rightarrow>
          if length hs \<noteq> length bns then (Inl UnexpectedHashesResult, st, removed @ [st])
          else (Inr hs, st, removed))"

text \<open>
  The body of a worker of \<open>getHashChain\<close>: a failed request contributes nothing.
  The workers update the table under its lock, one after the other.
\<close>

definition hashWorker ::
  "nat list \<Rightarrow> hashesResponse \<Rightarrow> voteTable list \<times> StreamID list \<Rightarrow>
     downloadError + voteTable list \<times> StreamID list" where
  "hashWorker bns resp state =
     (case state of
        (rs, removed) \<Rightarrow>
          (case doGetBlockHashesRequest bns resp removed of
             (Inl e, st, removed') \<Rightarrow> Inr (rs, removed')
           | (Inr hs, st, removed') \<Rightarrow>
               (case addResult_res hs st rs of
                  Inl e \<Rightarrow> Inl e
                | Inr rs' \<Rightarrow> Inr (rs', removed'))))"

fun runHashWorkers ::
  "nat list \<Rightarrow> hashesResponse list \<Rightarrow> voteTable list \<times> StreamID list \<Rightarrow>
     downloadError + voteTable list \<times> StreamID list" where
  "runHashWorkers bns [] state = Inr state"
| "runHashWorkers bns (resp # resps) state =
     (case hashWorker bns resp state of
        Inl e \<Rightarrow> Inl e
      | Inr state' \<Rightarrow> runHashWorkers bns resps state')"

definition doGetBlocksByHashesRequest ::
  "Hash list \<Rightarrow> StreamID list \<Rightarrow> blocksResponse \<Rightarrow> StreamID list \<Rightarrow>
     (downloadError + Block option list) \<times> StreamID \<times> StreamID list" where
  "doGetBlocksByHashesRequest hs wl resp removed =
     (case resp of
        (blocks, st, Some e) \<Rightarrow> (Inl e, st, removed)
      | (blocks, st, None) \<Rightarrow>
          (case checkGetBlockByHashesResult blocks hs of
             Some e \<Rightarrow> (Inl e, st, removed @ [st])
           | None \<Rightarrow> (Inr blocks, st, removed)))"

definition removeStreams :: "StreamID list \<Rightarrow> StreamID list \<Rightarrow> StreamID list" where
  "removeStreams sts removed = removed @ sts"

text \<open>
  \<open>errors.Is(err, context.Canceled)\<close> and \<open>errors.As(err, &emptySigVerifyError)\<close>
  look through the wrapping.
\<close>

fun isCanceled :: "downloadError \<Rightarrow> bool" where
  "isCanceled ContextCanceled = True"
| "isCanceled (Wrap e msg) = isCanceled e"
| "isCanceled e = False"

fun isSigVerifyError :: "downloadError \<Rightarrow> bool" where
  "isSigVerifyError SigVerifyError = True"
| "isSigVerifyError (Wrap e msg) = isSigVerifyError e"
| "isSigVerifyError e = False"

text \<open>
  One run of \<open>doShortRangeSync\<close> and what its surroundings answer: the configured
  concurrency, the number of streams, the current block number, the responses to the
  hash requests (one per worker, in the order in which the workers record them), the
  responses to the block requests in request order, whether the context is done after
  each phase, and what \<open>verifyAndInsertBlocks\<close> returns for a list of blocks.
\<close>

record syncEnv =
  concurrency :: nat
  numStreams :: int
  curBN :: nat
  hashResponses :: "hashesResponse list"
  hashCtxDone :: bool
  blockResponses :: "blocksResponse list"
  fetchCtxDone :: bool
  insertOutcome :: "Block list \<Rightarrow> int \<times> downloadError option"
  floatToInt :: "float64 \<Rightarrow> int"

definition getHashChain ::
  "syncEnv \<Rightarrow> StreamID list \<Rightarrow> (downloadError + Hash list \<times> StreamID slice) \<times> StreamID list" where
  "getHashChain env removed =
     (let bns = prepareBlockHashNumbers (curBN env)
      in case runHashWorkers bns (take (concurrency env) (hashResponses env))
                (newBlockHashResults bns, removed) of
           Inl e \<Rightarrow> (Inl e, removed)
         | Inr (rs, removed') \<Rightarrow>
             if hashCtxDone env then (Inl ContextCanceled, removed')
             else (case computeLongestHashChain rs of
                     (hashChain, wl) \<Rightarrow> (Inr (hashChain, sliceOf wl), removed')))"

text \<open>
  The fetch phase, in the schedule in which one worker serves every request and the
  other workers first run when the manager is done (they return at once). The worker
  loops until \<open>isDone\<close>; with no hash to hand out it would sleep and poll again, and
  with no response left the run is not over: both are \<open>None\<close>, no result within the
  given responses.
\<close>

fun fetchLoop ::
  "(float64 \<Rightarrow> int) \<Rightarrow> blocksResponse list \<Rightarrow> getBlocksByHashManager \<Rightarrow> StreamID list \<Rightarrow>
     (downloadError option \<times> getBlocksByHashManager \<times> StreamID list) option" where
  "fetchLoop a resps m removed =
     (if isDone m then Some (None, m, removed)
      else case getNextHashes a m of
        (Inl e, m1) \<Rightarrow> Some (Some e, m1, removed)
      | (Inr (hs, wl), m1) \<Rightarrow>
          if hs = [] then None
          else (case resps of
                  [] \<Rightarrow> None
                | resp # rest \<Rightarrow>
                    (case doGetBlocksByHashesRequest hs wl resp removed of
                       (Inl e, st, removed') \<Rightarrow>
                         fetchLoop a rest (handleResultError hs st m1) removed'
                     | (Inr blocks, st, removed') \<Rightarrow>
                         (case addResult hs blocks st m1 of
                            Inl e \<Rightarrow> Some (Some e, m1, removed')
                          | Inr m2 \<Rightarrow> fetchLoop a rest m2 removed'))))"

definition getBlocksByHashes ::
  "syncEnv \<Rightarrow> Hash list \<Rightarrow> StreamID slice \<Rightarrow> StreamID list \<Rightarrow>
     ((downloadError + Block list) \<times> getBlocksByHashManager \<times> StreamID list) option" where
  "getBlocksByHashes env hs whitelist0 removed =
     (case fetchLoop (floatToInt env) (blockResponses env) (newGetBlocksByHashManager hs whitelist0) removed of
        None \<Rightarrow> None
      | Some (Some e, m, removed') \<Rightarrow> Some (Inl e, m, removed')
      | Some (None, m, removed') \<Rightarrow>
          if fetchCtxDone env then Some (Inl ContextCanceled, m, removed')
          else Some (getResults m, m, removed'))"

text \<open>
  \<open>doShortRangeSync\<close> returns the count, the error and the streams evicted. The slice
  \<open>whitelist\<close> that it passes to \<open>removeStreams\<close> is the one it gave to the
  manager: its length is as \<open>getHashChain\<close> returned it and its backing array is as
  the manager left it. The sync status and the metrics are left out.
\<close>

definition doShortRangeSync :: "syncEnv \<Rightarrow> ((int \<times> downloadError option) \<times> StreamID list) option" where
  "doShortRangeSync env =
     (if numStreams env < int (concurrency env)
      then Some ((0, Some (Wrap NotEnoughStreams ''prerequisite'')), [])
      else case getHashChain env [] of
        (Inl e, removed) \<Rightarrow> Some ((0, Some (Wrap e ''getHashChain'')), removed)
      | (Inr (hashChain, wl0), removed) \<Rightarrow>
          if length hashChain = 0 then Some ((0, None), removed)
          else (case getBlocksByHashes env hashChain wl0 removed of
                  None \<Rightarrow> None
                | Some (res, m, removed1) \<Rightarrow>
                    let wl1 = wl0\<lparr>backing := backing (whitelist m)\<rparr>
                    in (case res of
                          Inl e \<Rightarrow>
                            Some ((0, Some (Wrap e ''getBlocksByHashes'')),
                                  if \<not> isCanceled e then removeStreams (elems wl1) removed1
                                  else removed1)
                        | Inr blocks \<Rightarrow>
                            (case insertOutcome env blocks of
                               (n, Some e) \<Rightarrow>
                                 Some ((n, Some (Wrap e ''InsertChain'')),
                                       if \<not> isSigVerifyError e
                                       then removeStreams (elems wl1) removed1
                                       else removed1)
                             | (n, None) \<Rightarrow> Some ((int (length blocks), None), removed1)))))"


section \<open>Verification\<close>

subsection \<open>The hash-vote tally\<close>

lemma cntL_Nil: "cntL [] wl h = 0" by (simp add: cntL_def)
lemma cntL_Cons: "cntL ((st, h') # m) wl h = (if h' = h \<and> counted wl st then 1 else 0) + cntL m wl h"
  by (simp add: cntL_def)
lemma cntL_nonneg: "0 \<le> cntL m wl h" by (simp add: cntL_def)

lemma voteLoop_inv:
  assumes "\<forall>h. readVote voteM h \<le> maxCnt"
    and "0 < maxCnt \<longrightarrow> readVote voteM res = maxCnt"
    and "0 \<le> maxCnt"
    and "voteLoop m wl voteM res maxCnt = (res', maxCnt')"
  shows "(\<forall>h. readVote voteM h + cntL m wl h \<le> maxCnt') \<and>
         (0 < maxCnt' \<longrightarrow> readVote voteM res' + cntL m wl res' = maxCnt') \<and>
         (maxCnt' = 0 \<longrightarrow> res' = res) \<and> maxCnt \<le> maxCnt'"
  using assms
proof (induction m arbitrary: voteM res maxCnt)
  case Nil
  then show ?case by (simp add: cntL_Nil)
next
  case (Cons e m)
  obtain st h where e: "e = (st, h)" by (cases e)
  show ?case
  proof (cases "counted wl st")
    case False
    then have skip: "wl \<noteq> [] \<and> st \<notin> set wl" by (simp add: counted_def)
    with Cons.prems(4) e have run: "voteLoop m wl voteM res maxCnt = (res', maxCnt')" by simp
    have "\<And>k. cntL (e # m) wl k = cntL m wl k" using False e by (simp add: cntL_Cons)
    with Cons.IH[OF Cons.prems(1,2,3) run] show ?thesis by simp
  next
    case True
    then have go: "\<not> (wl \<noteq> [] \<and> st \<notin> set wl)" by (auto simp add: counted_def)
    define voteM1 where "voteM1 = voteM(h \<mapsto> readVote voteM h + 1)"
    have rd: "\<And>k. readVote voteM1 k = (if k = h then readVote voteM h + 1 else readVote voteM k)"
      by (simp add: voteM1_def readVote_def)
    have cn: "\<And>k. cntL (e # m) wl k = (if h = k then 1 else 0) + cntL m wl k"
      using True e by (simp add: cntL_Cons)
    show ?thesis
    proof (cases "readVote voteM h + 1 > maxCnt")
      case True
      have run: "voteLoop m wl voteM1 h (readVote voteM h + 1) = (res', maxCnt')"
        using Cons.prems(4) e go True
        by (auto simp add: voteM1_def readVote_def Let_def split: option.splits if_splits)
      have p1: "\<forall>k. readVote voteM1 k \<le> readVote voteM h + 1"
        using Cons.prems(1) True by (auto simp add: rd intro: order_trans)
      have p2: "0 < readVote voteM h + 1 \<longrightarrow> readVote voteM1 h = readVote voteM h + 1"
        by (simp add: rd)
      have p3: "0 \<le> readVote voteM h + 1" using True Cons.prems(3) by linarith
      from Cons.IH[OF p1 p2 p3 run]
      have ih: "(\<forall>k. readVote voteM1 k + cntL m wl k \<le> maxCnt')"
           "(0 < maxCnt' \<longrightarrow> readVote voteM1 res' + cntL m wl res' = maxCnt')"
           "(maxCnt' = 0 \<longrightarrow> res' = h)" "readVote voteM h + 1 \<le> maxCnt'" by auto
      have pos: "0 < maxCnt'" using ih(4) True Cons.prems(3) by linarith
      have a: "\<forall>k. readVote voteM k + cntL (e # m) wl k \<le> maxCnt'"
      proof
        fix k show "readVote voteM k + cntL (e # m) wl k \<le> maxCnt'"
          using ih(1)[rule_format, of k] by (auto simp add: rd cn split: if_splits)
      qed
      have b: "readVote voteM res' + cntL (e # m) wl res' = maxCnt'"
        using ih(2) pos by (auto simp add: rd cn split: if_splits)
      show ?thesis using a b pos ih(4) True by auto
    next
      case False
      have run: "voteLoop m wl voteM1 res maxCnt = (res', maxCnt')"
        using Cons.prems(4) e go False
        by (auto simp add: voteM1_def readVote_def Let_def split: option.splits if_splits)
      have p1: "\<forall>k. readVote voteM1 k \<le> maxCnt"
        using Cons.prems(1) False by (auto simp add: rd)
      have p2: "0 < maxCnt \<longrightarrow> readVote voteM1 res = maxCnt"
        using Cons.prems(2) False by (auto simp add: rd)
      from Cons.IH[OF p1 p2 Cons.prems(3) run]
      have ih: "(\<forall>k. readVote voteM1 k + cntL m wl k \<le> maxCnt')"
           "(0 < maxCnt' \<longrightarrow> readVote voteM1 res' + cntL m wl res' = maxCnt')"
           "(maxCnt' = 0 \<longrightarrow> res' = res)" "maxCnt \<le> maxCnt'" by auto
      have a: "\<forall>k. readVote voteM k + cntL (e # m) wl k \<le> maxCnt'"
      proof
        fix k show "readVote voteM k + cntL (e # m) wl k \<le> maxCnt'"
          using ih(1)[rule_format, of k] by (auto simp add: rd cn split: if_splits)
      qed
      have b: "0 < maxCnt' \<longrightarrow> readVote voteM res' + cntL (e # m) wl res' = maxCnt'"
        using ih(2) by (auto simp add: rd cn split: if_splits)
      have c: "maxCnt' = 0 \<longrightarrow> res' = res" using ih(3) by simp
      show ?thesis using a b c ih(4) by auto
    qed
  qed
qed

lemma voteLoop_tally:
  assumes "voteLoop m wl Map.empty 0 0 = (res', maxCnt')"
  shows "(\<forall>h. cntL m wl h \<le> cntL m wl res') \<and> (cntL m wl res' = 0 \<longrightarrow> res' = 0)"
proof -
  have rv: "\<And>h. readVote Map.empty h = 0" by (simp add: readVote_def)
  have "(\<forall>h. readVote Map.empty h + cntL m wl h \<le> maxCnt') \<and>
         (0 < maxCnt' \<longrightarrow> readVote Map.empty res' + cntL m wl res' = maxCnt') \<and>
         (maxCnt' = 0 \<longrightarrow> res' = 0) \<and> 0 \<le> maxCnt'"
    by (rule voteLoop_inv[OF _ _ _ assms]) (simp_all add: rv)
  then have i: "\<forall>h. cntL m wl h \<le> maxCnt'" "0 < maxCnt' \<longrightarrow> cntL m wl res' = maxCnt'"
      "maxCnt' = 0 \<longrightarrow> res' = 0" "0 \<le> maxCnt'" by (simp_all add: rv)
  show ?thesis
  proof (cases "maxCnt' = 0")
    case True
    have "\<And>h. cntL m wl h = 0" using i(1) True cntL_nonneg[of m wl] by (simp add: order_antisym)
    then show ?thesis using i(3) True by simp
  next
    case False
    then have "0 < maxCnt'" using i(4) by simp
    then show ?thesis using i(1,2) by auto
  qed
qed

lemma nextWlLoop_filter:
  "nextWlLoop m wl res acc = acc @ map fst (filter (\<lambda>(st, h). h = res \<and> counted wl st) m)"
  by (induction m wl res acc rule: nextWlLoop.induct) (simp_all add: counted_def)

lemma nextWlLoop_order:
  "set m' = set m \<Longrightarrow> set (nextWlLoop m' wl res []) = set (nextWlLoop m wl res [])"
  by (simp add: nextWlLoop_filter)

lemma voters_set:
  "distinct (map fst m) \<Longrightarrow>
   {st. map_of m st = Some h \<and> counted wl st} =
   set (map fst (filter (\<lambda>(st, h'). h' = h \<and> counted wl st) m))"
  by (auto simp add: image_iff dest: map_of_SomeD)

lemma votesFor_cntL:
  assumes "distinct (map fst m)"
  shows "int (votesFor m wl h) = cntL m wl h"
proof -
  have d: "distinct (map fst (filter (\<lambda>(st, h'). h' = h \<and> counted wl st) m))"
    using assms by (rule distinct_map_filter)
  show ?thesis
    unfolding votesFor_def cntL_def voters_set[OF assms] using distinct_card[OF d] by simp
qed

lemma voteLoop_restrict:
  "wl \<noteq> [] \<Longrightarrow>
   voteLoop (filter (\<lambda>(st, h). st \<in> set wl) m) wl voteM res maxCnt = voteLoop m wl voteM res maxCnt"
  by (induction m wl voteM res maxCnt rule: voteLoop.induct) (simp_all add: Let_def)

lemma nextWlLoop_restrict:
  "wl \<noteq> [] \<Longrightarrow>
   nextWlLoop (filter (\<lambda>(st, h). st \<in> set wl) m) wl res acc = nextWlLoop m wl res acc"
  by (induction m wl res acc rule: nextWlLoop.induct) simp_all

lemma countHashMaxVote_restrict:
  "wl \<noteq> [] \<Longrightarrow>
   countHashMaxVote (filter (\<lambda>(st, h). st \<in> set wl) m) wl = countHashMaxVote m wl"
  by (simp add: countHashMaxVote_def voteLoop_restrict nextWlLoop_restrict)

lemma countHashMaxVote_winner:
  assumes "countHashMaxVote m wl = (winner, nextWl)"
  shows "(\<forall>h. cntL m wl h \<le> cntL m wl winner) \<and> (cntL m wl winner = 0 \<longrightarrow> winner = emptyHash)"
proof -
  obtain mc where "voteLoop m wl Map.empty 0 0 = (winner, mc)"
    using assms by (cases "voteLoop m wl Map.empty 0 0") (simp add: countHashMaxVote_def Let_def)
  from voteLoop_tally[OF this] show ?thesis by (simp add: emptyHash_def)
qed

lemma countHashMaxVote_nextWl:
  assumes "countHashMaxVote m wl = (winner, nextWl)"
  shows "nextWl = map fst (filter (\<lambda>(st, h). h = winner \<and> counted wl st) m)"
  using assms by (auto simp add: countHashMaxVote_def Let_def nextWlLoop_filter)

lemma countHashMaxVote_nonempty:
  assumes "countHashMaxVote m wl = (winner, nextWl)" and "winner \<noteq> emptyHash"
  shows "nextWl \<noteq> []"
proof -
  have "cntL m wl winner \<noteq> 0" using countHashMaxVote_winner[OF assms(1)] assms(2) by blast
  then have "filter (\<lambda>(st, h). h = winner \<and> counted wl st) m \<noteq> []" by (auto simp add: cntL_def)
  then show ?thesis by (simp add: countHashMaxVote_nextWl[OF assms(1)])
qed

lemma countHashMaxVote_subset:
  assumes "countHashMaxVote m wl = (winner, nextWl)" and "wl \<noteq> []"
  shows "set nextWl \<subseteq> set wl"
  using assms(2) by (auto simp add: countHashMaxVote_nextWl[OF assms(1)] counted_def)

text \<open>
  Claim C1. For a vote table \<open>V\<close> with one vote per stream and a prior whitelist
  \<open>W\<close>: (i) with \<open>W\<close> non-empty the tally is that of the table restricted to the
  streams of \<open>W\<close>; (ii) no hash has more counted votes than the winner; (iii) the
  next whitelist is exactly the set of streams whose counted vote is the winner, inside
  \<open>dom V \<inter> W\<close> when \<open>W\<close> is non-empty and inside \<open>dom V\<close> otherwise;
  (iv) when \<open>V\<close> is empty, or \<open>W\<close> is non-empty and disjoint from \<open>dom V\<close>,
  the winner is \<open>emptyHash\<close> and the next whitelist is empty.
\<close>

theorem countHashMaxVote_tally:
  assumes "distinct (map fst V)" and "countHashMaxVote V W = (winner, nextWl)"
  shows "(W \<noteq> [] \<longrightarrow> countHashMaxVote (filter (\<lambda>(st, h). st \<in> set W) V) W = (winner, nextWl)) \<and>
         (\<forall>h. votesFor V W h \<le> votesFor V W winner) \<and>
         set nextWl = {st. map_of V st = Some winner \<and> counted W st} \<and>
         (W \<noteq> [] \<longrightarrow> set nextWl \<subseteq> dom (map_of V) \<inter> set W) \<and>
         (W = [] \<longrightarrow> set nextWl \<subseteq> dom (map_of V)) \<and>
         (V = [] \<or> (W \<noteq> [] \<and> set W \<inter> dom (map_of V) = {}) \<longrightarrow>
            winner = emptyHash \<and> nextWl = [])"
proof -
  have i: "W \<noteq> [] \<longrightarrow> countHashMaxVote (filter (\<lambda>(st, h). st \<in> set W) V) W = (winner, nextWl)"
    using assms(2) by (simp add: countHashMaxVote_restrict)
  have ii: "\<forall>h. votesFor V W h \<le> votesFor V W winner"
  proof
    fix h
    have "cntL V W h \<le> cntL V W winner" using countHashMaxVote_winner[OF assms(2)] by blast
    then show "votesFor V W h \<le> votesFor V W winner"
      by (simp add: votesFor_cntL[OF assms(1), symmetric])
  qed
  have iii: "set nextWl = {st. map_of V st = Some winner \<and> counted W st}"
    by (simp only: countHashMaxVote_nextWl[OF assms(2)] voters_set[OF assms(1)])
  have iiia: "W \<noteq> [] \<longrightarrow> set nextWl \<subseteq> dom (map_of V) \<inter> set W"
    unfolding iii by (auto simp add: counted_def)
  have iiib: "W = [] \<longrightarrow> set nextWl \<subseteq> dom (map_of V)"
    unfolding iii by auto
  have iv: "V = [] \<or> (W \<noteq> [] \<and> set W \<inter> dom (map_of V) = {}) \<longrightarrow> winner = emptyHash \<and> nextWl = []"
  proof
    assume a: "V = [] \<or> (W \<noteq> [] \<and> set W \<inter> dom (map_of V) = {})"
    have none: "{st. map_of V st = Some winner \<and> counted W st} = {}"
      using a by (auto simp add: counted_def)
    have e: "nextWl = []" using iii unfolding none by simp
    have "winner = emptyHash"
    proof (rule ccontr)
      assume "winner \<noteq> emptyHash"
      from countHashMaxVote_nonempty[OF assms(2) this] e show False by simp
    qed
    with e show "winner = emptyHash \<and> nextWl = []" by simp
  qed
  show ?thesis using i ii iii iiia iiib iv by blast
qed

theorem countHashMaxVote_tally_witness:
  "distinct (map fst [(''p1'', 5 :: Hash), (''p2'', 7), (''p3'', 7)]) \<and>
   countHashMaxVote [(''p1'', 5), (''p2'', 7), (''p3'', 7)] [''p2'', ''p1''] = (5, [''p1'']) \<and>
   votesFor [(''p1'', 5), (''p2'', 7), (''p3'', 7)] [''p2'', ''p1''] 7
     \<le> votesFor [(''p1'', 5), (''p2'', 7), (''p3'', 7)] [''p2'', ''p1''] 5 \<and>
   set [''p1''] =
     {st. map_of [(''p1'', 5 :: Hash), (''p2'', 7), (''p3'', 7)] st = Some 5 \<and> counted [''p2'', ''p1''] st}"
proof -
  have d: "distinct (map fst [(''p1'', 5 :: Hash), (''p2'', 7), (''p3'', 7)])" by simp
  have r: "countHashMaxVote [(''p1'', 5), (''p2'', 7), (''p3'', 7)] [''p2'', ''p1''] = (5, [''p1''])"
    by (simp add: countHashMaxVote_def)
  from countHashMaxVote_tally[OF d r] d r show ?thesis by blast
qed


subsection \<open>The hash-chain aggregation\<close>

lemma hashChainLoop_length:
  "length (fst (hashChainLoop rs wl hc)) \<le> length hc + length rs"
proof (induction rs arbitrary: wl hc)
  case Nil
  show ?case by simp
next
  case (Cons r rs)
  obtain h nx where t: "countHashMaxVote r wl = (h, nx)" by (cases "countHashMaxVote r wl")
  show ?case using Cons.IH[of nx "hc @ [h]"] by (simp add: t)
qed

lemma hashChainLoop_append:
  "hashChainLoop (xs @ ys) wl hc =
     (case hashChainLoop xs wl hc of
        (hc', wl') \<Rightarrow> if length hc' = length hc + length xs then hashChainLoop ys wl' hc'
                      else (hc', wl'))"
proof (induction xs arbitrary: wl hc)
  case Nil
  show ?case by simp
next
  case (Cons r xs)
  obtain h nx where t: "countHashMaxVote r wl = (h, nx)" by (cases "countHashMaxVote r wl")
  show ?case
  proof (cases "h = emptyHash")
    case True
    then show ?thesis by (simp add: t)
  next
    case False
    then show ?thesis using Cons.IH[of nx "hc @ [h]"] by (simp add: t)
  qed
qed

lemma hashChainLoop_nonempty:
  "hashChainLoop rs wl hc = (hc', wl') \<Longrightarrow> (hc \<noteq> [] \<longrightarrow> wl \<noteq> []) \<Longrightarrow> hc' \<noteq> [] \<Longrightarrow> wl' \<noteq> []"
proof (induction rs arbitrary: wl hc)
  case Nil
  then show ?case by simp
next
  case (Cons r rs)
  obtain h nx where t: "countHashMaxVote r wl = (h, nx)" by (cases "countHashMaxVote r wl")
  show ?case
  proof (cases "h = emptyHash")
    case True
    then show ?thesis using Cons.prems by (simp add: t)
  next
    case False
    have run: "hashChainLoop rs nx (hc @ [h]) = (hc', wl')" using Cons.prems(1) False by (simp add: t)
    have "nx \<noteq> []" by (rule countHashMaxVote_nonempty[OF t False])
    then show ?thesis using Cons.IH[OF run _ Cons.prems(3)] by simp
  qed
qed

lemma hashChainLoop_single:
  assumes "hashChainLoop [r] wl hc = (hc', wl')" and "wl \<noteq> []"
  shows "set wl' \<subseteq> set wl"
proof -
  obtain h nx where t: "countHashMaxVote r wl = (h, nx)" by (cases "countHashMaxVote r wl")
  show ?thesis using assms countHashMaxVote_subset[OF t assms(2)] by (auto simp add: t split: if_splits)
qed

lemma firstEmpty_le: "firstEmpty rs \<le> length rs"
  unfolding firstEmpty_def using length_takeWhile_le[of _ "[0..<length rs]"] by simp

lemma firstEmpty_before:
  assumes "j < firstEmpty rs"
  shows "winnerAt rs j \<noteq> emptyHash"
proof -
  let ?P = "\<lambda>i. winnerAt rs i \<noteq> emptyHash"
  let ?xs = "[0..<length rs]"
  have j: "j < length (takeWhile ?P ?xs)" using assms by (simp add: firstEmpty_def)
  then have "takeWhile ?P ?xs ! j \<in> set (takeWhile ?P ?xs)" by (rule nth_mem)
  then have "?P (takeWhile ?P ?xs ! j)" by (rule set_takeWhileD[THEN conjunct2])
  moreover have "takeWhile ?P ?xs ! j = ?xs ! j" using j by (rule takeWhile_nth)
  moreover have "j < length rs" using assms firstEmpty_le[of rs] by simp
  ultimately show ?thesis by simp
qed

lemma firstEmpty_at:
  assumes "firstEmpty rs < length rs"
  shows "winnerAt rs (firstEmpty rs) = emptyHash"
proof -
  let ?P = "\<lambda>i. winnerAt rs i \<noteq> emptyHash"
  let ?xs = "[0..<length rs]"
  have "length (takeWhile ?P ?xs) < length ?xs" using assms by (simp add: firstEmpty_def)
  then have "\<not> ?P (?xs ! length (takeWhile ?P ?xs))" by (rule nth_length_takeWhile)
  then show ?thesis using assms by (simp add: firstEmpty_def)
qed

lemma run_prefix:
  "i \<le> length rs \<Longrightarrow> \<forall>j<i. winnerAt rs j \<noteq> emptyHash \<Longrightarrow>
   computeLongestHashChain (take i rs) = (map (winnerAt rs) [0..<i], whitelistAt rs i)"
proof (induction i)
  case 0
  show ?case by (simp add: computeLongestHashChain_def)
next
  case (Suc i)
  have i: "i < length rs" using Suc.prems(1) by simp
  have ih: "hashChainLoop (take i rs) [] [] = (map (winnerAt rs) [0..<i], whitelistAt rs i)"
    using Suc.IH Suc.prems i by (simp add: computeLongestHashChain_def)
  have w: "winnerAt rs i \<noteq> emptyHash" using Suc.prems(2) by simp
  obtain h nx where t: "countHashMaxVote (rs ! i) (whitelistAt rs i) = (h, nx)"
    by (cases "countHashMaxVote (rs ! i) (whitelistAt rs i)")
  have h: "h = winnerAt rs i" "nx = whitelistAt rs (Suc i)" by (simp_all add: winnerAt_def t)
  have "hashChainLoop (take i rs @ [rs ! i]) [] [] = (map (winnerAt rs) [0..<i] @ [h], nx)"
    using w i by (simp add: hashChainLoop_append ih t h(1)[symmetric])
  then show ?case
    by (simp add: computeLongestHashChain_def take_Suc_conv_app_nth[OF i] h)
qed

lemma run_stop:
  "computeLongestHashChain rs = computeLongestHashChain (take (firstEmpty rs) rs)"
proof (cases "firstEmpty rs < length rs")
  case False
  then show ?thesis using firstEmpty_le[of rs] by simp
next
  case True
  let ?k = "firstEmpty rs"
  have pre: "hashChainLoop (take ?k rs) [] [] = (map (winnerAt rs) [0..<?k], whitelistAt rs ?k)"
    using run_prefix[of ?k rs] firstEmpty_before[of _ rs] True
    by (simp add: computeLongestHashChain_def)
  obtain h nx where t: "countHashMaxVote (rs ! ?k) (whitelistAt rs ?k) = (h, nx)"
    by (cases "countHashMaxVote (rs ! ?k) (whitelistAt rs ?k)")
  have h: "h = emptyHash" using firstEmpty_at[OF True] by (simp add: winnerAt_def t)
  have d: "drop ?k rs = rs ! ?k # drop (Suc ?k) rs" using True by (simp add: Cons_nth_drop_Suc)
  have "hashChainLoop (take ?k rs @ drop ?k rs) [] [] = (map (winnerAt rs) [0..<?k], whitelistAt rs ?k)"
    using True unfolding hashChainLoop_append pre d by (simp add: t h)
  then show ?thesis by (simp add: computeLongestHashChain_def pre)
qed

text \<open>
  Claim C3. The chain returned by \<open>computeLongestHashChain\<close> is the list of the tally
  winners of the positions before \<open>firstEmpty\<close>, the first position whose tally under
  the running whitelist is \<open>emptyHash\<close>: every earlier position has a winner other
  than \<open>emptyHash\<close>, nothing at or after that position is in the chain, and when no
  position resolves to \<open>emptyHash\<close> the chain has one hash per position.
\<close>

theorem computeLongestHashChain_prefix:
  "fst (computeLongestHashChain rs) = map (winnerAt rs) [0..<firstEmpty rs] \<and>
   firstEmpty rs \<le> length rs \<and>
   (\<forall>i. i < firstEmpty rs \<longrightarrow> winnerAt rs i \<noteq> emptyHash) \<and>
   (firstEmpty rs < length rs \<longrightarrow> winnerAt rs (firstEmpty rs) = emptyHash) \<and>
   ((\<forall>i. i < length rs \<longrightarrow> winnerAt rs i \<noteq> emptyHash) \<longrightarrow>
      length (fst (computeLongestHashChain rs)) = length rs)"
proof -
  have a: "computeLongestHashChain rs = (map (winnerAt rs) [0..<firstEmpty rs], whitelistAt rs (firstEmpty rs))"
    using run_prefix[of "firstEmpty rs" rs] firstEmpty_before[of _ rs] firstEmpty_le[of rs]
    by (simp add: run_stop[of rs])
  have e: "(\<forall>i. i < length rs \<longrightarrow> winnerAt rs i \<noteq> emptyHash) \<longrightarrow> firstEmpty rs = length rs"
    using firstEmpty_at[of rs] firstEmpty_le[of rs] by (metis le_neq_implies_less)
  show ?thesis using a e firstEmpty_le[of rs] firstEmpty_before[of _ rs] firstEmpty_at[of rs]
    by auto
qed


theorem computeLongestHashChain_prefix_witness:
  "fst (computeLongestHashChain [[(''p1'', 5), (''p2'', 7)], [(''p2'', 8)], [(''p1'', 9)]]) = [5] \<and>
   snd (computeLongestHashChain [[(''p1'', 5), (''p2'', 7)], [(''p2'', 8)], [(''p1'', 9)]]) = [''p1''] \<and>
   firstEmpty [[(''p1'', 5), (''p2'', 7)], [(''p2'', 8)], [(''p1'', 9)]] = 1 \<and>
   winnerAt [[(''p1'', 5), (''p2'', 7)], [(''p2'', 8)], [(''p1'', 9)]] 0 = 5 \<and>
   winnerAt [[(''p1'', 5), (''p2'', 7)], [(''p2'', 8)], [(''p1'', 9)]] 1 = emptyHash"
proof -
  let ?rs = "[[(''p1'', 5), (''p2'', 7)], [(''p2'', 8)], [(''p1'', 9 :: Hash)]]"
  have w0: "winnerAt ?rs 0 = 5" by (simp add: winnerAt_def countHashMaxVote_def)
  have w1: "winnerAt ?rs 1 = emptyHash"
    by (simp add: winnerAt_def countHashMaxVote_def emptyHash_def)
  have k: "firstEmpty ?rs = 1"
    by (simp add: firstEmpty_def upt_rec[of 0] upt_rec[of 1] upt_rec[of 2] w0 w1[simplified] emptyHash_def)
  have wl: "snd (computeLongestHashChain ?rs) = [''p1'']"
    by (simp add: computeLongestHashChain_def countHashMaxVote_def emptyHash_def)
  from computeLongestHashChain_prefix[of ?rs] show ?thesis
    by (simp add: k w0 w1[simplified] wl)
qed

text \<open>
  Claim C2. The state of the loop of \<open>computeLongestHashChain\<close> after \<open>k\<close>
  positions is its result on the first \<open>k\<close> tables. From the first resolved height
  on, each further position can only shrink the running whitelist, and the whitelist
  returned with a non-empty chain is non-empty.
\<close>

theorem computeLongestHashChain_whitelist:
  "(1 \<le> k \<longrightarrow>
      set (snd (computeLongestHashChain (take (Suc k) rs)))
        \<subseteq> set (snd (computeLongestHashChain (take k rs)))) \<and>
   (fst (computeLongestHashChain rs) \<noteq> [] \<longrightarrow> snd (computeLongestHashChain rs) \<noteq> [])"
proof -
  have b: "fst (computeLongestHashChain rs) \<noteq> [] \<longrightarrow> snd (computeLongestHashChain rs) \<noteq> []"
    using hashChainLoop_nonempty[of rs "[]" "[]"]
    by (cases "hashChainLoop rs [] []") (simp add: computeLongestHashChain_def)
  have a: "1 \<le> k \<longrightarrow>
      set (snd (computeLongestHashChain (take (Suc k) rs)))
        \<subseteq> set (snd (computeLongestHashChain (take k rs)))"
  proof (cases "k < length rs")
    case False
    then show ?thesis by simp
  next
    case True
    obtain hc wl where pre: "hashChainLoop (take k rs) [] [] = (hc, wl)"
      by (cases "hashChainLoop (take k rs) [] []")
    show ?thesis
    proof (cases "length hc = k")
      case False
      then show ?thesis using True
        by (simp add: computeLongestHashChain_def take_Suc_conv_app_nth hashChainLoop_append pre)
    next
      case len: True
      show ?thesis
      proof
        assume k: "1 \<le> k"
        then have "hc \<noteq> []" using len by auto
        then have wl: "wl \<noteq> []" using hashChainLoop_nonempty[OF pre] by simp
        obtain hc' wl' where st: "hashChainLoop [rs ! k] wl hc = (hc', wl')"
          by (cases "hashChainLoop [rs ! k] wl hc")
        have "set wl' \<subseteq> set wl" by (rule hashChainLoop_single[OF st wl])
        then show "set (snd (computeLongestHashChain (take (Suc k) rs)))
            \<subseteq> set (snd (computeLongestHashChain (take k rs)))"
          using True len
          by (simp add: computeLongestHashChain_def take_Suc_conv_app_nth hashChainLoop_append pre st
              del: hashChainLoop.simps)
      qed
    qed
  qed
  show ?thesis using a b by simp
qed

theorem computeLongestHashChain_whitelist_witness:
  "(1::nat) \<le> 1 \<and>
   set (snd (computeLongestHashChain
      (take (Suc 1) [[(''p1'', 5), (''p2'', 7), (''p3'', 7)], [(''p1'', 5), (''p2'', 8), (''p3'', 9)]])))
     \<subseteq> set (snd (computeLongestHashChain
      (take 1 [[(''p1'', 5), (''p2'', 7), (''p3'', 7)], [(''p1'', 5), (''p2'', 8), (''p3'', 9)]]))) \<and>
   fst (computeLongestHashChain
      [[(''p1'', 5), (''p2'', 7), (''p3'', 7)], [(''p1'', 5), (''p2'', 8), (''p3'', 9)]]) = [7, 8] \<and>
   snd (computeLongestHashChain
      [[(''p1'', 5), (''p2'', 7), (''p3'', 7)], [(''p1'', 5), (''p2'', 8), (''p3'', 9)]]) = [''p2'']"
proof -
  let ?rs = "[[(''p1'', 5), (''p2'', 7), (''p3'', 7)], [(''p1'', 5), (''p2'', 8), (''p3'', 9 :: Hash)]]"
  have r: "computeLongestHashChain ?rs = ([7, 8], [''p2''])"
    by (simp add: computeLongestHashChain_def countHashMaxVote_def emptyHash_def)
  from computeLongestHashChain_whitelist[of 1 ?rs] show ?thesis
    by (simp add: r)
qed

subsection \<open>Stream framing\<close>

lemma Uint32_PutUint32: "Uint32 (PutUint32 v) = v"
  unfolding Uint32_def PutUint32_def
proof (rule bit_word_eqI)
  fix n :: nat
  assume n: "n < LENGTH(32)"
  have c: "n < 8 \<or> (8 \<le> n \<and> n < 16) \<or> (16 \<le> n \<and> n < 24) \<or> (24 \<le> n \<and> n < 32)"
    using n by auto
  then show "bit (ucast ([ucast v, ucast (drop_bit 8 v), ucast (drop_bit 16 v), ucast (drop_bit 24 v) :: byte] ! 0) OR
          push_bit 8 (ucast ([ucast v, ucast (drop_bit 8 v), ucast (drop_bit 16 v), ucast (drop_bit 24 v) :: byte] ! 1)) OR
          push_bit 16 (ucast ([ucast v, ucast (drop_bit 8 v), ucast (drop_bit 16 v), ucast (drop_bit 24 v) :: byte] ! 2)) OR
          push_bit 24 (ucast ([ucast v, ucast (drop_bit 8 v), ucast (drop_bit 16 v), ucast (drop_bit 24 v) :: byte] ! 3)) :: 32 word) n = bit v n"
    by (auto simp add: bit_simps)
qed

lemma bytesToInt_intToBytes: "0 \<le> n \<Longrightarrow> n < 2 ^ 32 \<Longrightarrow> bytesToInt (intToBytes n) = n"
  by (simp add: bytesToInt_def intToBytes_def Uint32_PutUint32 uint_word_of_int take_bit_int_eq_self)

lemma length_intToBytes: "length (intToBytes n) = 4"
  by (simp add: intToBytes_def PutUint32_def)

lemma ReadFull_exact:
  "concat cs = b @ rest \<Longrightarrow>
   \<exists>cs'. ReadFull cs (length b) acc = (acc @ b, None, cs') \<and> concat cs' = rest"
proof (induction cs arbitrary: b acc)
  case Nil
  then show ?case by simp
next
  case (Cons c cs)
  show ?case
  proof (cases "length b = 0")
    case True
    then show ?thesis using Cons.prems by simp
  next
    case nz: False
    show ?thesis
    proof (cases "length c \<le> length b")
      case True
      have cb: "c @ concat cs = b @ rest" using Cons.prems by simp
      have c: "c = take (length c) b" using cb True
        by (metis append_eq_append_conv_if append_eq_conv_conj)
      have r: "concat cs = drop (length c) b @ rest" using cb True
        by (metis append_eq_append_conv_if append_eq_conv_conj)
      from Cons.IH[OF r, of "acc @ c"] obtain cs' where
        "ReadFull cs (length (drop (length c) b)) (acc @ c) = ((acc @ c) @ drop (length c) b, None, cs')"
        "concat cs' = rest" by blast
      moreover have "c @ drop (length c) b = b" using c by (metis append_take_drop_id)
      ultimately show ?thesis using True nz by simp
    next
      case False
      have cb: "c @ concat cs = b @ rest" using Cons.prems by simp
      have "take (length b) c = b" using cb False
        by (metis append_eq_append_conv_if append_eq_conv_conj nat_le_linear)
      moreover have "drop (length b) c @ concat cs = rest" using cb False
        by (metis append_eq_append_conv_if append_eq_conv_conj nat_le_linear)
      ultimately show ?thesis using False nz by simp
    qed
  qed
qed


lemma maxMsgBytes_lt: "n \<le> maxMsgBytes \<Longrightarrow> n < 2 ^ 32"
  by (simp add: maxMsgBytes_def)

lemma WriteBytes_emits:
  assumes "int (length b) \<le> maxMsgBytes" and "writeBudget st = None"
  shows "WriteBytes b st =
           (None, st\<lparr>outgoing := outgoing st @ outbuf st @ intToBytes (int (length b)) @ b,
                       outbuf := []\<rparr>)"
  using assms by (simp add: WriteBytes_def rw_Write_def rw_Flush_def)

lemma WriteBytes_too_long:
  "int (length b) > maxMsgBytes \<Longrightarrow> WriteBytes b st = (Some MessageTooLong, st)"
  by (simp add: WriteBytes_def)

lemma rw_Read_prefix:
  assumes "incoming st = c # cs" and "sizeBytes \<le> length c"
  shows "\<exists>cs'. rw_Read sizeBytes st = ((take sizeBytes c, None), st\<lparr>incoming := cs'\<rparr>) \<and>
               concat cs' = drop sizeBytes c @ concat cs"
  using assms by (auto simp add: rw_Read_def)

lemma ReadBytes_roundtrip:
  assumes len: "int (length b) \<le> maxMsgBytes"
    and inc: "incoming st = c # cs"
    and first: "sizeBytes \<le> length c"
    and framing: "concat (c # cs) = intToBytes (int (length b)) @ b @ rest"
  shows "\<exists>cs'. ReadBytes st = (Inr b, st\<lparr>incoming := cs'\<rparr>) \<and> concat cs' = rest"
proof -
  from rw_Read_prefix[OF inc first] obtain cs1 where
    rd: "rw_Read sizeBytes st = ((take sizeBytes c, None), st\<lparr>incoming := cs1\<rparr>)"
    and c1: "concat cs1 = drop sizeBytes c @ concat cs" by blast
  have eq: "c @ concat cs = intToBytes (int (length b)) @ b @ rest" using framing by simp
  have l4: "length (intToBytes (int (length b))) = sizeBytes"
    by (simp add: length_intToBytes sizeBytes_def)
  have tk: "take sizeBytes c = intToBytes (int (length b))"
    using eq first l4 by (metis append_eq_conv_conj take_append take_all_iff diff_is_0_eq take0 append_Nil2 order_refl)
  have "drop sizeBytes (c @ concat cs) = b @ rest" using eq l4 by simp
  then have body: "concat cs1 = b @ rest" using c1 first by simp
  from ReadFull_exact[OF body, of "[]"] obtain cs' where
    rf: "ReadFull cs1 (length b) [] = (b, None, cs')" and r: "concat cs' = rest" by auto
  have sz: "bytesToInt (intToBytes (int (length b))) = int (length b)"
    using bytesToInt_intToBytes[of "int (length b)"] maxMsgBytes_lt[OF len] by simp
  have mn: "min (length c) sizeBytes = sizeBytes" using first by simp
  have "ReadBytes st = (Inr b, st\<lparr>incoming := cs'\<rparr>)"
    using len by (simp add: ReadBytes_def rd mn tk l4 sz rf Let_def)
  with r show ?thesis by blast
qed

lemma ReadBytes_oversize:
  assumes inc: "incoming st = c # cs"
    and first: "sizeBytes \<le> length c"
    and big: "bytesToInt (take sizeBytes c) > maxMsgBytes"
  shows "\<exists>cs'. ReadBytes st = (Inl MessageSizeExceedMax, st\<lparr>incoming := cs'\<rparr>) \<and>
               concat cs' = drop sizeBytes (concat (c # cs))"
proof -
  from rw_Read_prefix[OF inc first] obtain cs1 where
    rd: "rw_Read sizeBytes st = ((take sizeBytes c, None), st\<lparr>incoming := cs1\<rparr>)"
    and c1: "concat cs1 = drop sizeBytes c @ concat cs" by blast
  have mn: "min (length c) sizeBytes = sizeBytes" using first by simp
  have "ReadBytes st = (Inl MessageSizeExceedMax, st\<lparr>incoming := cs1\<rparr>)"
    using big by (simp add: ReadBytes_def rd mn Let_def)
  then show ?thesis using c1 first by auto
qed

text \<open>
  Claim C9. \<open>WriteBytes\<close> emits the 4-byte little-endian length followed by the
  payload (\<open>WriteBytes_emits\<close>), rejects a payload above 20 MiB without writing
  (\<open>WriteBytes_too_long\<close>), and \<open>ReadBytes\<close> returns the payload and rejects an
  oversize declared length when the four prefix bytes arrive in one read
  (\<open>ReadBytes_roundtrip\<close>, \<open>ReadBytes_oversize\<close>). The round trip fails when they
  do not: \<open>ReadBytes\<close> ignores the count returned by \<open>Read\<close>. Below, the framing
  of the payload \<open>[1, 2, 3]\<close> is delivered as one byte followed by the rest; the
  length is read from the first byte alone and the three bytes returned are the rest of
  the prefix.
\<close>

theorem ReadBytes_short_prefix_read:
  "WriteBytes [1, 2, 3] \<lparr>incoming = [], outbuf = [], outgoing = [], writeBudget = None\<rparr>
     = (None, \<lparr>incoming = [], outbuf = [], outgoing = [3, 0, 0, 0, 1, 2, 3], writeBudget = None\<rparr>) \<and>
   concat [[3], [0, 0, 0, 1, 2, 3]] = [3, 0, 0, 0, 1, 2, 3 :: byte] \<and>
   ReadBytes \<lparr>incoming = [[3], [0, 0, 0, 1, 2, 3]], outbuf = [], outgoing = [], writeBudget = None\<rparr>
     = (Inr [0, 0, 0], \<lparr>incoming = [[1, 2, 3]], outbuf = [], outgoing = [], writeBudget = None\<rparr>)"
  by (simp add: WriteBytes_def rw_Write_def rw_Flush_def maxMsgBytes_def intToBytes_def PutUint32_def
      ReadBytes_def rw_Read_def sizeBytes_def bytesToInt_def Uint32_def)

subsection \<open>Rounding and \<open>divideCeil\<close>\<close>

lemma roundHalfEven_error: "\<bar>of_int (roundHalfEven x) - x\<bar> \<le> 1 / 2"
proof -
  have "of_int \<lfloor>x\<rfloor> \<le> x" "x < of_int \<lfloor>x\<rfloor> + 1" by linarith+
  then show ?thesis by (auto simp add: roundHalfEven_def Let_def abs_le_iff)
qed

lemma roundHalfEven_of_int: "roundHalfEven (of_int n) = n"
  by (simp add: roundHalfEven_def)

lemma pow2_pos: "0 < (2::rat) powi k"
  by (simp add: zero_less_power_int)

lemma exponentOf_bounds:
  assumes "0 < r"
  shows "2 powi (exponentOf r) \<le> r \<and> r < 2 powi (exponentOf r + 1)"
proof -
  obtain p q where pq: "quotient_of r = (p, q)" by (cases "quotient_of r")
  have q: "0 < q" using quotient_of_denom_pos[OF pq] .
  have r: "r = of_int p / of_int q" using quotient_of_div[OF pq] .
  have p: "0 < p" using assms q r by (simp add: zero_less_divide_iff)
  define a where "a = nat (bitlen p)"
  define b where "b = nat (bitlen q)"
  have a1: "1 \<le> a" using p bitlen_eq_zero_iff[of p] bitlen_nonneg[of p] by (simp add: a_def)
  have b1: "1 \<le> b" using q bitlen_eq_zero_iff[of q] bitlen_nonneg[of q] by (simp add: b_def)
  have k: "bitlen p - bitlen q = int a - int b"
    using bitlen_nonneg[of p] bitlen_nonneg[of q] by (simp add: a_def b_def)
  have pa: "(2::int) ^ (a - 1) \<le> p" "p < 2 ^ a"
    using bitlen_bounds[OF p] a1 by (simp_all add: a_def nat_diff_distrib)
  have qb: "(2::int) ^ (b - 1) \<le> q" "q < 2 ^ b"
    using bitlen_bounds[OF q] b1 by (simp_all add: b_def nat_diff_distrib)
  have par: "(2::rat) ^ (a - 1) \<le> of_int p" "(of_int p :: rat) < 2 ^ a"
    using pa by (metis of_int_le_iff of_int_numeral of_int_power, metis of_int_less_iff of_int_numeral of_int_power)
  have qbr: "(2::rat) ^ (b - 1) \<le> of_int q" "(of_int q :: rat) < 2 ^ b"
    using qb by (metis of_int_le_iff of_int_numeral of_int_power, metis of_int_less_iff of_int_numeral of_int_power)
  have qpos: "(0::rat) < of_int q" using q by simp
  have up: "r < 2 powi (int a - int b + 1)"
  proof -
    have "(2::rat) powi (int a - int b + 1) = 2 ^ a / 2 ^ (b - 1)"
      using b1 by (simp add: power_int_diff power_int_add power_diff)
    moreover have "of_int p / of_int q < (2::rat) ^ a / 2 ^ (b - 1)"
    proof (rule frac_less)
      show "(0::rat) \<le> of_int p" using p by simp
      show "(of_int p :: rat) < 2 ^ a" by (rule par(2))
      show "(0::rat) < 2 ^ (b - 1)" by simp
      show "(2::rat) ^ (b - 1) \<le> of_int q" by (rule qbr(1))
    qed
    ultimately show ?thesis using r by simp
  qed
  have lo: "2 powi (int a - int b - 1) \<le> r"
  proof -
    have "(2::rat) powi (int a - int b - 1) = 2 ^ (a - 1) / 2 ^ b"
      using a1 by (simp add: power_int_diff power_diff)
    moreover have "(2::rat) ^ (a - 1) / 2 ^ b \<le> of_int p / of_int q"
    proof (rule frac_le)
      show "(0::rat) \<le> of_int p" using p by simp
      show "(2::rat) ^ (a - 1) \<le> of_int p" by (rule par(1))
      show "(0::rat) < of_int q" by (rule qpos)
      show "(of_int q :: rat) \<le> 2 ^ b" using qbr(2) by simp
    qed
    ultimately show ?thesis using r by simp
  qed
  show ?thesis using up lo by (auto simp add: exponentOf_def pq k Let_def)
qed


lemma round64_pos:
  "0 < r \<Longrightarrow>
   round64 r = of_int (roundHalfEven (r / 2 powi (exponentOf r - 52))) * 2 powi (exponentOf r - 52)"
  by (simp add: round64_def Let_def)

lemma round64_error:
  assumes "0 < r"
  shows "\<bar>round64 r - r\<bar> \<le> 2 powi (exponentOf r - 53)"
proof -
  define s :: rat where "s = 2 powi (exponentOf r - 52)"
  define m where "m = roundHalfEven (r / s)"
  have s: "0 < s" by (simp add: s_def pow2_pos)
  have half: "s / 2 = 2 powi (exponentOf r - 53)"
    using power_int_diff[of "2::rat" "exponentOf r - 52" 1] by (simp add: s_def)
  have "\<bar>of_int m - r / s\<bar> \<le> 1 / 2" unfolding m_def by (rule roundHalfEven_error)
  then have "\<bar>of_int m - r / s\<bar> * s \<le> (1 / 2) * s" using s by (simp add: mult_right_mono)
  moreover have "\<bar>of_int m - r / s\<bar> * s = \<bar>of_int m * s - r\<bar>"
  proof -
    have "\<bar>of_int m - r / s\<bar> * s = \<bar>(of_int m - r / s) * s\<bar>"
      using s by (simp add: abs_mult)
    also have "(of_int m - r / s) * s = of_int m * s - r" using s by (simp add: left_diff_distrib)
    finally show ?thesis .
  qed
  ultimately have "\<bar>of_int m * s - r\<bar> \<le> s / 2" by simp
  then show ?thesis using round64_pos[OF assms] by (simp add: m_def s_def half[unfolded s_def])
qed

lemma round64_exact:
  assumes "0 < r" and "r = of_int n * 2 powi (exponentOf r - 52)"
  shows "round64 r = r"
proof -
  define s :: rat where "s = 2 powi (exponentOf r - 52)"
  have s: "0 < s" by (simp add: s_def pow2_pos)
  have rs: "r = of_int n * s" using assms(2) by (simp add: s_def)
  have "r / s = of_int n" using s by (subst rs) simp
  then have "round64 r = of_int n * s"
    using round64_pos[OF assms(1)] by (simp add: s_def[symmetric] roundHalfEven_of_int)
  then show ?thesis using rs by simp
qed

lemma exponentOf_less:
  assumes "0 < r" and "r < 2 powi k"
  shows "exponentOf r < k"
proof (rule ccontr)
  assume "\<not> exponentOf r < k"
  then have "k \<le> exponentOf r" by simp
  then have "(2::rat) powi k \<le> 2 powi (exponentOf r)" by (simp add: power_int_increasing)
  with exponentOf_bounds[OF assms(1)] assms(2) show False by linarith
qed

lemma round64_of_int:
  assumes "0 \<le> x" and "x < 2 ^ 53"
  shows "round64 (of_int x) = of_int x"
proof (cases "x = 0")
  case True
  then show ?thesis by (simp add: round64_def)
next
  case False
  then have pos: "(0::rat) < of_int x" using assms(1) by simp
  have "(of_int x :: rat) < 2 powi 53" using assms(2)
    by (metis of_int_less_iff of_int_numeral of_int_power power_int_numeral)
  then have "exponentOf (of_int x) < 53" by (rule exponentOf_less[OF pos])
  then have lt: "exponentOf (rat_of_int x) < 53" .
  define d where "d = nat (52 - exponentOf (rat_of_int x))"
  have d: "exponentOf (rat_of_int x) - 52 = - int d" using lt by (simp add: d_def)
  have "(of_int x :: rat) = of_int (x * 2 ^ d) * 2 powi (exponentOf (of_int x) - 52)"
    by (simp add: d power_int_minus)
  then show ?thesis by (rule round64_exact[OF pos])
qed


lemma round64_quotient_ceiling:
  assumes x: "0 < x" "x < 2 ^ 53" and y: "0 < y"
  shows "\<lceil>round64 (of_int x / of_int y)\<rceil> = \<lceil>(of_int x :: rat) / of_int y\<rceil>"
proof -
  define q :: rat where "q = of_int x / of_int y"
  define n where "n = \<lceil>q\<rceil>"
  have Y: "(0::rat) < of_int y" using y by simp
  have X: "(0::rat) < of_int x" using x(1) by simp
  have q: "0 < q" using X Y by (simp add: q_def)
  have qy: "q * of_int y = of_int x" using Y by (simp add: q_def)
  have err: "\<bar>round64 q - q\<bar> < 1 / of_int y"
  proof -
    have "\<bar>round64 q - q\<bar> \<le> 2 powi (exponentOf q - 53)" by (rule round64_error[OF q])
    also have "(2::rat) powi (exponentOf q - 53) = 2 powi (exponentOf q) / 2 ^ 53"
      using power_int_diff[of "2::rat" "exponentOf q" 53] by simp
    also have "\<dots> \<le> q / 2 ^ 53" using exponentOf_bounds[OF q] by (simp add: divide_right_mono)
    also have "q / 2 ^ 53 = (of_int x / 2 ^ 53) / of_int y" by (simp add: q_def)
    also have "\<dots> < 1 / of_int y"
    proof (rule divide_strict_right_mono)
      have "(of_int x :: rat) < 2 ^ 53" using x(2)
        by (metis of_int_less_iff of_int_numeral of_int_power)
      then show "(of_int x :: rat) / 2 ^ 53 < 1" by simp
      show "(0::rat) < of_int y" by (rule Y)
    qed
    finally show ?thesis .
  qed
  have n1: "of_int n - 1 < q" "q \<le> of_int n" unfolding n_def by linarith+
  have lowi: "(n - 1) * y < x"
  proof -
    have "(of_int n - 1) * of_int y < q * (of_int y :: rat)" using n1(1) Y by (simp add: mult_strict_right_mono)
    then have "(of_int ((n - 1) * y) :: rat) < of_int x" by (simp add: qy)
    then show ?thesis by (simp only: of_int_less_iff)
  qed
  have upi: "x \<le> n * y"
  proof -
    have "q * (of_int y :: rat) \<le> of_int n * of_int y" using n1(2) Y by (simp add: mult_right_mono)
    then have "(of_int x :: rat) \<le> of_int (n * y)" by (simp add: qy)
    then show ?thesis by (simp only: of_int_le_iff)
  qed
  have low: "of_int n - 1 + 1 / of_int y \<le> q"
  proof -
    have "(n - 1) * y + 1 \<le> x" using lowi by simp
    then have "(of_int ((n - 1) * y + 1) :: rat) \<le> of_int x" by (simp only: of_int_le_iff)
    then have "((of_int n - 1) * of_int y + 1) / of_int y \<le> (of_int x :: rat) / of_int y"
      using Y by (simp add: divide_right_mono)
    moreover have "((of_int n - 1) * of_int y + 1) / of_int y = (of_int n :: rat) - 1 + 1 / of_int y"
      using Y by (simp add: add_divide_distrib)
    ultimately show ?thesis by (simp add: q_def)
  qed
  have gt: "of_int n - 1 < round64 q" using err low unfolding abs_less_iff by linarith
  have le: "round64 q \<le> of_int n"
  proof (cases "x = n * y")
    case True
    then have qn: "q = of_int n" using Y by (simp add: q_def)
    have npos: "0 \<le> n" using q unfolding n_def by linarith
    have "n \<le> n * y" using npos y by (simp add: mult_le_cancel_left1)
    then have "n < 2 ^ 53" using True x(2) by linarith
    then show ?thesis using round64_of_int[OF npos] by (simp add: qn)
  next
    case False
    then have "x + 1 \<le> n * y" using upi by simp
    then have "(of_int (x + 1) :: rat) \<le> of_int (n * y)" by (simp only: of_int_le_iff)
    then have "(of_int x + 1 :: rat) \<le> of_int n * of_int y" by simp
    then have a: "(of_int x + 1) / of_int y \<le> (of_int n * of_int y :: rat) / of_int y"
      using Y by (rule_tac divide_right_mono) simp_all
    have b: "(of_int x + 1) / of_int y = q + 1 / (of_int y :: rat)"
      by (simp add: q_def add_divide_distrib)
    have c: "(of_int n * of_int y :: rat) / of_int y = of_int n" using Y by simp
    have "q + 1 / of_int y \<le> of_int n" using a unfolding b c .
    then show ?thesis using err unfolding abs_less_iff by linarith
  qed
  have "\<lceil>round64 q\<rceil> = n" using gt le by (rule ceiling_unique)
  then show ?thesis by (simp add: n_def q_def)
qed

lemma divideCeil_exact:
  assumes "0 \<le> x" and "x < 2 ^ 53" and "0 < y" and "y < 2 ^ 53"
  shows "divideCeil arch x y = \<lceil>(of_int x :: rat) / of_int y\<rceil>"
proof -
  have fx: "float64_of_int x = Finite (of_int x)"
    using round64_of_int[OF assms(1,2)] by (simp add: float64_of_int_def)
  have fy: "float64_of_int y = Finite (of_int y)"
    using round64_of_int[of y] assms(3,4) by (simp add: float64_of_int_def)
  have rq: "\<lceil>round64 (of_int x / of_int y)\<rceil> = \<lceil>(of_int x :: rat) / of_int y\<rceil>"
  proof (cases "x = 0")
    case True
    then show ?thesis by (simp add: round64_def)
  next
    case False
    then show ?thesis using round64_quotient_ceiling[of x y] assms by simp
  qed
  define n where "n = \<lceil>(of_int x :: rat) / of_int y\<rceil>"
  have "(0::rat) \<le> of_int x / of_int y" using assms(1,3) by simp
  then have n0: "0 \<le> n" unfolding n_def by linarith
  have nx: "n \<le> x"
  proof -
    have "(of_int x :: rat) / of_int y \<le> of_int x"
      using assms(1,3) by (simp add: divide_le_eq mult_le_cancel_left1)
    then show ?thesis unfolding n_def by (simp add: ceiling_le_iff)
  qed
  have rng: "- (2 ^ 63) \<le> n \<and> n < 2 ^ 63" using n0 nx assms(2) by simp
  show ?thesis
    using assms(3) rng n0
    by (simp add: divideCeil_def fx fy float64_div_def math_Ceil_def int_of_float64_def rq
        n_def[symmetric] Let_def)
qed

lemma round64_positive:
  assumes "0 < r"
  shows "0 < round64 r"
proof -
  have "\<bar>round64 r - r\<bar> \<le> 2 powi (exponentOf r - 53)" by (rule round64_error[OF assms])
  moreover have "(2::rat) powi (exponentOf r - 53) < 2 powi (exponentOf r)"
    by (simp add: power_int_strict_increasing)
  ultimately show ?thesis using exponentOf_bounds[OF assms] unfolding abs_le_iff by linarith
qed

lemma round64_minus: "round64 (- r) = - round64 r"
  by (simp add: round64_def Let_def)

lemma round64_sign:
  "(round64 r = 0 \<longleftrightarrow> r = 0) \<and> (0 < round64 r \<longleftrightarrow> 0 < r)"
proof -
  consider "r = 0" | "0 < r" | "r < 0" by linarith
  then show ?thesis
  proof cases
    case 1
    then show ?thesis by (simp add: round64_def)
  next
    case 2
    then show ?thesis using round64_positive[OF 2] by auto
  next
    case 3
    then have "0 < round64 (- r)" by (simp add: round64_positive)
    then show ?thesis using 3 by (simp add: round64_minus)
  qed
qed

lemma divideCeil_zero:
  "divideCeil arch x 0 = arch (if x = 0 then NaN else if 0 < x then PosInf else NegInf)"
proof -
  define rx where "rx = round64 (of_int x)"
  have z: "float64_of_int 0 = Finite 0" by (simp add: float64_of_int_def round64_def)
  have fx: "float64_of_int x = Finite rx" by (simp add: float64_of_int_def rx_def)
  have s: "(rx = 0 \<longleftrightarrow> x = 0) \<and> (0 < rx \<longleftrightarrow> 0 < x)"
    using round64_sign[of "of_int x"] by (simp add: rx_def)
  show ?thesis
    unfolding divideCeil_def z fx
    using s by (simp add: float64_div_def math_Ceil_def int_of_float64_def)
qed

subsection \<open>The block-fetch manager\<close>

lemma numBlocksPerRequest_bounds:
  "numBlocksByHashesLowerCap \<le> numBlocksPerRequest arch m \<and>
   numBlocksPerRequest arch m \<le> numBlocksByHashesUpperCap"
  by (simp add: numBlocksPerRequest_def Let_def numBlocksByHashesLowerCap_def
      numBlocksByHashesUpperCap_def)

lemma numBlocksPerRequest_spec:
  assumes "hashes m \<noteq> []" and "elems (whitelist m) \<noteq> []"
    and "length (hashes m) < 2 ^ 53" and "length (elems (whitelist m)) < 2 ^ 53"
  shows "numBlocksPerRequest arch m =
           batchSizeSpec (length (hashes m)) (length (elems (whitelist m)))"
proof -
  have a: "int (length (hashes m)) < 2 ^ 53" using assms(3)
    by (metis of_nat_less_iff of_nat_numeral of_nat_power)
  have b: "int (length (elems (whitelist m))) < 2 ^ 53" using assms(4)
    by (metis of_nat_less_iff of_nat_numeral of_nat_power)
  have c: "0 < int (length (elems (whitelist m)))" using assms(2) by simp
  define k where
    "k = \<lceil>(of_nat (length (hashes m)) :: rat) / of_nat (length (elems (whitelist m)))\<rceil>"
  have dc: "divideCeil arch (int (length (hashes m))) (int (length (elems (whitelist m)))) = k"
    using divideCeil_exact[OF _ a c b, of arch] by (simp add: k_def)
  show ?thesis
    unfolding numBlocksPerRequest_def batchSizeSpec_def Let_def dc k_def[symmetric]
      numBlocksByHashesLowerCap_def numBlocksByHashesUpperCap_def
    by (simp add: max_def min_def)
qed

lemma batchSizeSpec_antimono:
  assumes "0 < w'" and "w' \<le> w"
  shows "batchSizeSpec t w \<le> batchSizeSpec t w'"
proof -
  have "(of_nat t :: rat) / of_nat w \<le> of_nat t / of_nat w'"
    using assms by (simp add: divide_left_mono)
  then have "\<lceil>(of_nat t :: rat) / of_nat w\<rceil> \<le> \<lceil>(of_nat t :: rat) / of_nat w'\<rceil>"
    by (rule ceiling_mono)
  then show ?thesis unfolding batchSizeSpec_def by linarith
qed

text \<open>
  Claim C6. \<open>numBlocksPerRequest\<close> is never below the lower cap 6 nor above the upper
  cap 10. For a non-empty target and a non-empty whitelist, of lengths below \<open>2 ^ 53\<close>
  (every slice that fits in memory), it equals
  \<open>clamp(ceil(len(target) / len(whitelist)), 6, 10)\<close>, and for the same target it does
  not decrease when the whitelist gets shorter.
\<close>

theorem numBlocksPerRequest_clamp:
  "numBlocksByHashesLowerCap \<le> numBlocksPerRequest arch m \<and>
   numBlocksPerRequest arch m \<le> numBlocksByHashesUpperCap \<and>
   numBlocksByHashesLowerCap = 6 \<and> numBlocksByHashesUpperCap = 10 \<and>
   (hashes m \<noteq> [] \<and> elems (whitelist m) \<noteq> [] \<and>
    length (hashes m) < 2 ^ 53 \<and> length (elems (whitelist m)) < 2 ^ 53 \<longrightarrow>
      numBlocksPerRequest arch m =
        batchSizeSpec (length (hashes m)) (length (elems (whitelist m))) \<and>
      (\<forall>m'. hashes m' = hashes m \<and> elems (whitelist m') \<noteq> [] \<and>
            length (elems (whitelist m')) \<le> length (elems (whitelist m)) \<longrightarrow>
            numBlocksPerRequest arch m \<le> numBlocksPerRequest arch m'))"
proof -
  have mono: "numBlocksPerRequest arch m \<le> numBlocksPerRequest arch m'"
    if m: "hashes m \<noteq> []" "elems (whitelist m) \<noteq> []"
      "length (hashes m) < 2 ^ 53" "length (elems (whitelist m)) < 2 ^ 53"
    and m': "hashes m' = hashes m" "elems (whitelist m') \<noteq> []"
      "length (elems (whitelist m')) \<le> length (elems (whitelist m))" for m'
  proof -
    have lt: "length (elems (whitelist m')) < 2 ^ 53" using m'(3) m(4) by simp
    have "numBlocksPerRequest arch m' =
            batchSizeSpec (length (hashes m)) (length (elems (whitelist m')))"
      using numBlocksPerRequest_spec[of m' arch] m m' lt by simp
    moreover have "batchSizeSpec (length (hashes m)) (length (elems (whitelist m)))
        \<le> batchSizeSpec (length (hashes m)) (length (elems (whitelist m')))"
      using m'(2,3) by (intro batchSizeSpec_antimono) simp_all
    ultimately show ?thesis using numBlocksPerRequest_spec[OF m, of arch] by simp
  qed
  show ?thesis
    using numBlocksPerRequest_bounds[of arch m] numBlocksPerRequest_spec[of m arch] mono
    by (simp add: numBlocksByHashesLowerCap_def numBlocksByHashesUpperCap_def)
qed


theorem numBlocksPerRequest_clamp_witness:
  "hashes \<lparr>hashes = [1, 2, 3, 4, 5, 6, 7, 8, 9, 10, 11, 12, 13, 14, 15], pendings = [], results = [],
      whitelist = sliceOf [''p1'', ''p2'']\<rparr> \<noteq> [] \<and>
   elems (sliceOf [''p1'', ''p2'']) \<noteq> [] \<and>
   length [1, 2, 3, 4, 5, 6, 7, 8, 9, 10, 11, 12, 13, 14, 15 :: Hash] < 2 ^ 53 \<and>
   length (elems (sliceOf [''p1'', ''p2''])) < 2 ^ 53 \<and>
   numBlocksPerRequest (\<lambda>f. 0)
     \<lparr>hashes = [1, 2, 3, 4, 5, 6, 7, 8, 9, 10, 11, 12, 13, 14, 15], pendings = [], results = [],
      whitelist = sliceOf [''p1'', ''p2'']\<rparr> = 8 \<and>
   numBlocksPerRequest (\<lambda>f. 0)
     \<lparr>hashes = [1, 2, 3, 4, 5, 6, 7, 8, 9, 10, 11, 12, 13, 14, 15], pendings = [], results = [],
      whitelist = sliceOf [''p1'', ''p2'']\<rparr>
   \<le> numBlocksPerRequest (\<lambda>f. 0)
     \<lparr>hashes = [1, 2, 3, 4, 5, 6, 7, 8, 9, 10, 11, 12, 13, 14, 15], pendings = [], results = [],
      whitelist = sliceOf [''p1'']\<rparr>"
proof -
  let ?hs = "[1, 2, 3, 4, 5, 6, 7, 8, 9, 10, 11, 12, 13, 14, 15 :: Hash]"
  let ?m = "\<lparr>hashes = ?hs, pendings = [], results = [], whitelist = sliceOf [''p1'', ''p2'']\<rparr>"
  let ?m' = "\<lparr>hashes = ?hs, pendings = [], results = [], whitelist = sliceOf [''p1'']\<rparr>"
  have e: "elems (sliceOf [''p1'', ''p2'']) = [''p1'', ''p2'']" "elems (sliceOf [''p1'']) = [''p1'']"
    by (simp_all add: elems_def sliceOf_def)
  have pre: "hashes ?m \<noteq> [] \<and> elems (whitelist ?m) \<noteq> [] \<and>
      length (hashes ?m) < 2 ^ 53 \<and> length (elems (whitelist ?m)) < 2 ^ 53"
    by (simp add: e)
  have c: "\<lceil>(15 :: rat) / 2\<rceil> = 8" by (rule ceiling_unique) simp_all
  have b: "batchSizeSpec 15 2 = 8" by (simp add: batchSizeSpec_def c)
  from numBlocksPerRequest_clamp[of "\<lambda>f. 0" ?m] pre
  have eq: "numBlocksPerRequest (\<lambda>f. 0) ?m = batchSizeSpec (length (hashes ?m)) (length (elems (whitelist ?m)))"
    and mono: "\<forall>m'. hashes m' = hashes ?m \<and> elems (whitelist m') \<noteq> [] \<and>
            length (elems (whitelist m')) \<le> length (elems (whitelist ?m)) \<longrightarrow>
            numBlocksPerRequest (\<lambda>f. 0) ?m \<le> numBlocksPerRequest (\<lambda>f. 0) m'"
    by blast+
  have l15: "length (hashes ?m) = 15" by simp
  have l2: "length (elems (whitelist ?m)) = 2" by (simp add: e)
  have v: "numBlocksPerRequest (\<lambda>f. 0) ?m = 8" using eq unfolding l15 l2 b .
  have "numBlocksPerRequest (\<lambda>f. 0) ?m \<le> numBlocksPerRequest (\<lambda>f. 0) ?m'"
    using mono[rule_format, of ?m'] by (simp add: e)
  then show ?thesis using v by (simp add: e)
qed

lemma getNextHashes_error:
  "elems (whitelist m) = [] \<Longrightarrow> getNextHashes arch m = (Inl EmptyWhiteList, m)"
  by (simp add: getNextHashes_def Let_def)

text \<open>
  Claim C10. With an empty whitelist \<open>getNextHashes\<close> returns the empty-whitelist
  error and the manager is unchanged. The batch size is computed first:
  \<open>divideCeil\<close> divides by zero, the quotient is an infinity (NaN for an empty
  target) whose conversion to \<open>int\<close> is implementation-dependent, and the caps bring
  whatever it is into the range 6 to 10 before the result is dropped.
\<close>

theorem getNextHashes_empty_whitelist:
  assumes "elems (whitelist m) = []"
  shows "getNextHashes arch m = (Inl EmptyWhiteList, m) \<and>
         divideCeil arch (int (length (hashes m))) (int (length (elems (whitelist m))))
           = arch (if hashes m = [] then NaN else PosInf) \<and>
         numBlocksByHashesLowerCap \<le> numBlocksPerRequest arch m \<and>
         numBlocksPerRequest arch m \<le> numBlocksByHashesUpperCap"
  using assms numBlocksPerRequest_bounds[of arch m]
  by (simp add: getNextHashes_error divideCeil_zero)

theorem getNextHashes_empty_whitelist_witness:
  "elems (whitelist \<lparr>hashes = [1, 2], pendings = [], results = [], whitelist = sliceOf []\<rparr>) = [] \<and>
   getNextHashes (\<lambda>f. - 9223372036854775808)
       \<lparr>hashes = [1, 2], pendings = [], results = [], whitelist = sliceOf []\<rparr>
     = (Inl EmptyWhiteList, \<lparr>hashes = [1, 2], pendings = [], results = [], whitelist = sliceOf []\<rparr>) \<and>
   divideCeil (\<lambda>f. - 9223372036854775808) 2 0 = - 9223372036854775808"
proof -
  let ?m = "\<lparr>hashes = [1, 2 :: Hash], pendings = [], results = [], whitelist = sliceOf []\<rparr>"
  have e: "elems (whitelist ?m) = []" by (simp add: elems_def sliceOf_def)
  from getNextHashes_empty_whitelist[OF e, of "\<lambda>f. - 9223372036854775808"] e
  show ?thesis by simp
qed

lemma nextHashesLoop_take:
  "int (length acc) \<le> num \<Longrightarrow>
   nextHashesLoop hs num m acc = acc @ take (nat num - length acc) (filter (eligible m) hs)"
proof (induction hs arbitrary: acc)
  case Nil
  show ?case by simp
next
  case (Cons hash rest)
  show ?case
  proof (cases "int (length acc) = num")
    case True
    then show ?thesis by simp
  next
    case False
    then have lt: "int (length acc) < num" using Cons.prems by simp
    then have pos: "nat num - length acc = Suc (nat num - length acc - 1)" by linarith
    show ?thesis
    proof (cases "eligible m hash")
      case True
      have "int (length (acc @ [hash])) \<le> num" using lt by simp
      from Cons.IH[OF this] True False show ?thesis
        by (simp add: eligible_def Let_def) (subst pos, simp add: eligible_def)
    next
      case el: False
      from Cons.IH[OF Cons.prems] el False show ?thesis
        by (auto simp add: eligible_def Let_def)
    qed
  qed
qed

lemma getNextHashes_batch:
  assumes "elems (whitelist m) \<noteq> []"
  shows "getNextHashes arch m =
           (Inr (take (nat (numBlocksPerRequest arch m)) (filter (eligible m) (hashes m)),
                 elems (whitelist m)), m)"
proof -
  have "0 \<le> numBlocksPerRequest arch m"
    using numBlocksPerRequest_bounds[of arch m] by (simp add: numBlocksByHashesLowerCap_def)
  then have "nextHashesLoop (hashes m) (numBlocksPerRequest arch m) m [] =
        take (nat (numBlocksPerRequest arch m)) (filter (eligible m) (hashes m))"
    using nextHashesLoop_take[of "[]" "numBlocksPerRequest arch m" "hashes m" m] by simp
  then show ?thesis using assms by (simp add: getNextHashes_def Let_def)
qed

text \<open>
  Claim C4. With a non-empty whitelist \<open>getNextHashes\<close> returns the first hashes of
  the target, up to the batch size, that are neither pending nor completed, and a copy
  of the whitelist (\<open>getNextHashes_batch\<close>). It does not mark them pending: the
  manager is returned as it was. Below, a manager with target \<open>[1, 2]\<close> hands out the
  batch \<open>[1, 2]\<close>, its \<open>pendings\<close> stay empty, and the next call hands out the same
  batch again.
\<close>

theorem getNextHashes_leaves_pendings:
  "getNextHashes arch \<lparr>hashes = [1, 2], pendings = [], results = [], whitelist = sliceOf [''p1'']\<rparr>
     = (Inr ([1, 2], [''p1'']),
        \<lparr>hashes = [1, 2], pendings = [], results = [], whitelist = sliceOf [''p1'']\<rparr>) \<and>
   fst (getNextHashes arch
         (snd (getNextHashes arch
           \<lparr>hashes = [1, 2], pendings = [], results = [], whitelist = sliceOf [''p1'']\<rparr>)))
     = Inr ([1, 2], [''p1''])"
proof -
  let ?m = "\<lparr>hashes = [1, 2 :: Hash], pendings = [], results = [], whitelist = sliceOf [''p1'']\<rparr>"
  have e: "elems (whitelist ?m) = [''p1'']" by (simp add: elems_def sliceOf_def)
  have n: "2 \<le> nat (numBlocksPerRequest arch ?m)"
    using numBlocksPerRequest_bounds[of arch ?m] unfolding numBlocksByHashesLowerCap_def
    by linarith
  have f: "filter (eligible ?m) (hashes ?m) = [1, 2]" by (simp add: eligible_def)
  have "getNextHashes arch ?m = (Inr ([1, 2], [''p1'']), ?m)"
    using getNextHashes_batch[of ?m arch] n unfolding f e by simp
  then show ?thesis by simp
qed


lemma getResultsLoop_eq:
  "getResultsLoop hs m acc =
     (if \<exists>h\<in>set hs. block (lookupResult m h) = None then Inl SanityNilBlock
      else Inr (acc @ map (\<lambda>h. the (block (lookupResult m h))) hs))"
  by (induction hs arbitrary: acc) (auto split: option.splits)

lemma getResults_eq:
  "getResults m =
     (if \<exists>h\<in>set (hashes m). block (lookupResult m h) = None then Inl SanityNilBlock
      else Inr (map (\<lambda>h. the (block (lookupResult m h))) (hashes m)))"
  by (simp add: getResults_def getResultsLoop_eq)

lemma resultsAligned_new: "resultsAligned (newGetBlocksByHashManager hs wl)"
  by (simp add: resultsAligned_def newGetBlocksByHashManager_def)

lemma resultsAligned_error: "resultsAligned m \<Longrightarrow> resultsAligned (handleResultError hs st m)"
  by (simp add: resultsAligned_def handleResultError_def Let_def)

lemma resultsAligned_add:
  "checkBlocksLoop blocks hs = None \<Longrightarrow> resultsAligned m \<Longrightarrow>
   addResult hs blocks st m = Inr m' \<Longrightarrow> resultsAligned m'"
proof (induction hs blocks st m rule: addResult.induct)
  case (1 blocks st m)
  then show ?case by simp
next
  case (2 hash rest st m)
  then show ?case by simp
next
  case (3 hash rest b blocks st m)
  from "3.prems"(1) obtain blk where b: "b = Some blk" and h: "blockHash blk = hash"
    and rest: "checkBlocksLoop blocks rest = None"
    by (auto split: option.splits if_splits)
  let ?m1 = "m\<lparr>pendings := removeAll hash (pendings m),
          results := AList.update hash \<lparr>block = b, stid = st\<rparr> (results m)\<rparr>"
  have al: "resultsAligned ?m1"
    using "3.prems"(2) b h by (auto simp add: resultsAligned_def update_conv')
  from "3.IH"[OF rest al] "3.prems"(3) show ?case by simp
qed

lemma managed_aligned: "managed m \<Longrightarrow> resultsAligned m"
proof (induction rule: managed.induct)
  case (managed_new hs wl)
  show ?case by (rule resultsAligned_new)
next
  case (managed_add m blocks hs st m')
  from managed_add.hyps(2) have "checkBlocksLoop blocks hs = None"
    by (simp add: checkGetBlockByHashesResult_def split: if_splits)
  then show ?case using managed_add.IH managed_add.hyps(3) by (rule resultsAligned_add)
next
  case (managed_error m hs st)
  then show ?case by (simp add: resultsAligned_error)
qed

lemma aligned_lookup:
  assumes "resultsAligned m" and "block (lookupResult m h) = Some b"
  shows "blockHash b = h"
proof (cases "map_of (results m) h")
  case None
  then show ?thesis using assms(2) by (simp add: lookupResult_def zeroBlockResult_def)
next
  case (Some r)
  then have br: "block r = Some b" using assms(2) by (simp add: lookupResult_def)
  from assms(1) Some obtain b' where "block r = Some b'" "blockHash b' = h"
    unfolding resultsAligned_def by blast
  then show ?thesis using br by simp
qed

text \<open>
  Claim C5. \<open>getResults\<close> fails if and only if some target hash has no recorded
  non-nil block, and its only error is the sanity error. On success it returns one
  block per target hash, in target order, the block recorded for that hash; in every
  state the manager reaches in \<open>getBlocksByHashes\<close> the hash of the \<open>i\<close>-th block is
  the \<open>i\<close>-th target hash.
\<close>

theorem getResults_aligned:
  "(isl (getResults m) \<longleftrightarrow> (\<exists>h\<in>set (hashes m). block (lookupResult m h) = None)) \<and>
   (\<forall>e. getResults m = Inl e \<longrightarrow> e = SanityNilBlock) \<and>
   (\<forall>bs. getResults m = Inr bs \<longrightarrow>
      length bs = length (hashes m) \<and>
      (\<forall>i. i < length bs \<longrightarrow> block (lookupResult m (hashes m ! i)) = Some (bs ! i)) \<and>
      (managed m \<longrightarrow> (\<forall>i. i < length bs \<longrightarrow> blockHash (bs ! i) = hashes m ! i)))"
proof -
  have a: "isl (getResults m) \<longleftrightarrow> (\<exists>h\<in>set (hashes m). block (lookupResult m h) = None)"
    by (simp add: getResults_eq)
  have b: "\<forall>e. getResults m = Inl e \<longrightarrow> e = SanityNilBlock"
    by (auto simp add: getResults_eq split: if_splits)
  have c: "length bs = length (hashes m) \<and>
      (\<forall>i. i < length bs \<longrightarrow> block (lookupResult m (hashes m ! i)) = Some (bs ! i)) \<and>
      (managed m \<longrightarrow> (\<forall>i. i < length bs \<longrightarrow> blockHash (bs ! i) = hashes m ! i))"
    if r: "getResults m = Inr bs" for bs
  proof -
    have all: "\<forall>h\<in>set (hashes m). block (lookupResult m h) \<noteq> None"
      and bs: "bs = map (\<lambda>h. the (block (lookupResult m h))) (hashes m)"
      using r by (auto simp add: getResults_eq split: if_splits)
    have len: "length bs = length (hashes m)" by (simp add: bs)
    have rec: "block (lookupResult m (hashes m ! i)) = Some (bs ! i)" if "i < length bs" for i
    proof -
      have "hashes m ! i \<in> set (hashes m)" using that len by simp
      then have "block (lookupResult m (hashes m ! i)) \<noteq> None" using all by blast
      then show ?thesis using that len by (auto simp add: bs)
    qed
    have hash: "blockHash (bs ! i) = hashes m ! i" if "managed m" "i < length bs" for i
      using aligned_lookup[OF managed_aligned[OF that(1)] rec[OF that(2)]] .
    show ?thesis using len rec hash by blast
  qed
  show ?thesis using a b c by blast
qed

theorem getResults_aligned_witness:
  "managed \<lparr>hashes = [5, 7], pendings = [],
      results = [(5, \<lparr>block = Some \<lparr>blockHash = 5, blockBody = 1\<rparr>, stid = ''p1''\<rparr>),
                 (7, \<lparr>block = Some \<lparr>blockHash = 7, blockBody = 2\<rparr>, stid = ''p1''\<rparr>)],
      whitelist = sliceOf [''p1'']\<rparr> \<and>
   getResults \<lparr>hashes = [5, 7], pendings = [],
      results = [(5, \<lparr>block = Some \<lparr>blockHash = 5, blockBody = 1\<rparr>, stid = ''p1''\<rparr>),
                 (7, \<lparr>block = Some \<lparr>blockHash = 7, blockBody = 2\<rparr>, stid = ''p1''\<rparr>)],
      whitelist = sliceOf [''p1'']\<rparr>
     = Inr [\<lparr>blockHash = 5, blockBody = 1\<rparr>, \<lparr>blockHash = 7, blockBody = 2\<rparr>] \<and>
   (1::nat) < length [\<lparr>blockHash = 5, blockBody = 1\<rparr>, \<lparr>blockHash = 7, blockBody = (2::nat)\<rparr>] \<and>
   blockHash ([\<lparr>blockHash = 5, blockBody = 1\<rparr>, \<lparr>blockHash = 7, blockBody = (2::nat)\<rparr>] ! 1)
     = [5, 7] ! 1 \<and>
   getResults (newGetBlocksByHashManager [5, 7] (sliceOf [''p1''])) = Inl SanityNilBlock \<and>
   isl (getResults (newGetBlocksByHashManager [5, 7] (sliceOf [''p1''])))"
proof -
  let ?b5 = "\<lparr>blockHash = 5, blockBody = (1::nat)\<rparr>"
  let ?b7 = "\<lparr>blockHash = 7, blockBody = (2::nat)\<rparr>"
  let ?m0 = "newGetBlocksByHashManager [5, 7] (sliceOf [''p1''])"
  let ?m1 = "\<lparr>hashes = [5, 7], pendings = [],
      results = [(5, \<lparr>block = Some ?b5, stid = ''p1''\<rparr>), (7, \<lparr>block = Some ?b7, stid = ''p1''\<rparr>)],
      whitelist = sliceOf [''p1'']\<rparr>"
  have chk: "checkGetBlockByHashesResult [Some ?b5, Some ?b7] [5, 7] = None"
    by (simp add: checkGetBlockByHashesResult_def)
  have add: "addResult [5, 7] [Some ?b5, Some ?b7] ''p1'' ?m0 = Inr ?m1"
    by (simp add: newGetBlocksByHashManager_def)
  have mg: "managed ?m1" by (rule managed_add[OF managed_new chk add])
  have r1: "getResults ?m1 = Inr [?b5, ?b7]"
    by (simp add: getResults_def lookupResult_def)
  have r0: "getResults ?m0 = Inl SanityNilBlock"
    by (simp add: getResults_def lookupResult_def newGetBlocksByHashManager_def zeroBlockResult_def)
  have i: "(1::nat) < length [?b5, ?b7]" by simp
  from getResults_aligned[of ?m1] r1 mg i
  have "blockHash ([?b5, ?b7] ! 1) = hashes ?m1 ! 1" by blast
  moreover from getResults_aligned[of ?m0] r0 have "isl (getResults ?m0)" by simp
  ultimately show ?thesis using mg r1 r0 i by simp
qed

subsection \<open>The short-range helper\<close>

lemma doGetBlockHashesRequest_mismatch:
  "length hs \<noteq> length bns \<Longrightarrow>
   doGetBlockHashesRequest bns (hs, st, None) removed
     = (Inl UnexpectedHashesResult, st, removed @ [st])"
  by (simp add: doGetBlockHashesRequest_def)

lemma doGetBlockHashesRequest_match:
  "length hs = length bns \<Longrightarrow>
   doGetBlockHashesRequest bns (hs, st, None) removed = (Inr hs, st, removed)"
  by (simp add: doGetBlockHashesRequest_def)

text \<open>
  Claim C8. When the protocol delivers a listing whose length differs from the number
  of requested heights, \<open>doGetBlockHashesRequest\<close> passes the stream to
  \<open>RemoveStream\<close> and returns an error, and the worker leaves the vote tables as they
  were; a listing of the right length is returned as it is and nothing is evicted.
\<close>

theorem doGetBlockHashesRequest_length_check:
  "(length hs \<noteq> length bns \<longrightarrow>
      doGetBlockHashesRequest bns (hs, st, None) removed
        = (Inl UnexpectedHashesResult, st, removed @ [st]) \<and>
      hashWorker bns (hs, st, None) (rs, removed) = Inr (rs, removed @ [st])) \<and>
   (length hs = length bns \<longrightarrow>
      doGetBlockHashesRequest bns (hs, st, None) removed = (Inr hs, st, removed))"
  by (simp add: doGetBlockHashesRequest_mismatch doGetBlockHashesRequest_match hashWorker_def)

theorem doGetBlockHashesRequest_length_check_witness:
  "length [5, 6 :: Hash] \<noteq> length [101, 102, 103 :: nat] \<and>
   doGetBlockHashesRequest [101, 102, 103] ([5, 6], ''p1'', None) []
     = (Inl UnexpectedHashesResult, ''p1'', [''p1'']) \<and>
   hashWorker [101, 102, 103] ([5, 6], ''p1'', None) ([[], [], []], []) = Inr ([[], [], []], [''p1'']) \<and>
   length [5, 6, 7 :: Hash] = length [101, 102, 103 :: nat] \<and>
   doGetBlockHashesRequest [101, 102, 103] ([5, 6, 7], ''p2'', None) [] = (Inr [5, 6, 7], ''p2'', [])"
proof -
  have a: "length [5, 6 :: Hash] \<noteq> length [101, 102, 103 :: nat]" by simp
  have b: "length [5, 6, 7 :: Hash] = length [101, 102, 103 :: nat]" by simp
  from doGetBlockHashesRequest_length_check[of "[5, 6]" "[101, 102, 103]" "''p1''" "[]" "[[], [], []]"]
    doGetBlockHashesRequest_length_check[of "[5, 6, 7]" "[101, 102, 103]" "''p2''" "[]" "[]"] a b
  show ?thesis by simp
qed

lemma doShortRangeSync_insert_failure:
  assumes "int (concurrency env) \<le> numStreams env"
    and "getHashChain env [] = (Inr (hashChain, wl0), removed)"
    and "hashChain \<noteq> []"
    and "getBlocksByHashes env hashChain wl0 removed = Some (Inr blocks, m, removed1)"
    and "insertOutcome env blocks = (n, Some e)"
  shows "doShortRangeSync env =
           Some ((n, Some (Wrap e ''InsertChain'')),
                 if isSigVerifyError e then removed1
                 else removed1 @ take (slen wl0) (backing (whitelist m)))"
  using assms by (simp add: doShortRangeSync_def Let_def removeStreams_def elems_def)

text \<open>
  Claim C7. When the insertion fails, \<open>doShortRangeSync\<close> returns the count and the
  wrapped error, evicts nothing on a signature error and otherwise passes the content
  of its whitelist slice to \<open>RemoveStream\<close> (\<open>doShortRangeSync_insert_failure\<close>).
  That content is not always the hash-chain whitelist: the manager removes a failing
  stream from the same backing array. Below, two streams agree on the chain \<open>[5]\<close>;
  the block request served by \<open>p1\<close> fails, \<open>p2\<close> delivers the block, and the
  insertion fails with an error that is not a signature error. The streams evicted are
  \<open>p2\<close> and \<open>p2\<close>; \<open>p1\<close>, a member of the hash-chain whitelist, is not.
\<close>

theorem doShortRangeSync_shared_whitelist:
  "getHashChain
     \<lparr>concurrency = 2, numStreams = 2, curBN = 100,
      hashResponses =
        [([5, 0, 0, 0, 0, 0, 0, 0, 0, 0, 0, 0, 0, 0, 0, 0, 0, 0, 0, 0], ''p1'', None),
         ([5, 0, 0, 0, 0, 0, 0, 0, 0, 0, 0, 0, 0, 0, 0, 0, 0, 0, 0, 0], ''p2'', None)],
      hashCtxDone = False,
      blockResponses =
        [([], ''p1'', Some RequestFailed), ([Some \<lparr>blockHash = 5, blockBody = 1\<rparr>], ''p2'', None)],
      fetchCtxDone = False,
      insertOutcome = (\<lambda>blocks. (0, Some InsertFailed)),
      floatToInt = (\<lambda>f. 0)\<rparr> []
     = (Inr ([5], sliceOf [''p1'', ''p2'']), []) \<and>
   doShortRangeSync
     \<lparr>concurrency = 2, numStreams = 2, curBN = 100,
      hashResponses =
        [([5, 0, 0, 0, 0, 0, 0, 0, 0, 0, 0, 0, 0, 0, 0, 0, 0, 0, 0, 0], ''p1'', None),
         ([5, 0, 0, 0, 0, 0, 0, 0, 0, 0, 0, 0, 0, 0, 0, 0, 0, 0, 0, 0], ''p2'', None)],
      hashCtxDone = False,
      blockResponses =
        [([], ''p1'', Some RequestFailed), ([Some \<lparr>blockHash = 5, blockBody = 1\<rparr>], ''p2'', None)],
      fetchCtxDone = False,
      insertOutcome = (\<lambda>blocks. (0, Some InsertFailed)),
      floatToInt = (\<lambda>f. 0)\<rparr>
     = Some ((0, Some (Wrap InsertFailed ''InsertChain'')), [''p2'', ''p2''])"
  by code_simp

end
